theory Spec2Isabelle
  imports Main "HOL-Library.Word"
begin

unbundle bit_operations_syntax

section \<open>Data model of the sweeping engine (cecSat.c)\<close>

text \<open>
  A possibly complemented object pointer \<^verbatim>\<open>Gia_Obj_t *\<close> is an object index together
  with the complement bit; \<^verbatim>\<open>Gia_Regular\<close> forgets the bit.
\<close>

type_synonym obj_ptr = "nat \<times> bool"

text \<open>
  The fields of the manager \<^verbatim>\<open>Gia_Man_t\<close> that the engine uses. \<open>vCopies\<close> is the
  per-object SAT variable map of the rebuilt AIG (\<open>-1\<close>: none). The traversal ids
  (\<^verbatim>\<open>nTravIds\<close>, \<^verbatim>\<open>pTravIds\<close>) are kept as the set \<open>travIdCur\<close> of the objects that
  carry the current traversal id.
\<close>

datatype gia_kind =
    Const0
  | Ci nat
  | And nat bool nat bool
  | Co nat bool

record gia_obj =
  kind :: gia_kind
  fMark0 :: bool
  fMark1 :: bool
  fPhase :: bool
  Value :: nat

record gia_rpr =
  iRepr :: nat
  fProved :: bool
  fFailed :: bool

record abc_cex =
  iPo :: int
  nPis :: nat
  pData :: "bool list"

record gia_man =
  objs :: "gia_obj list"
  vCis :: "nat list"
  vCos :: "nat list"
  vCopies :: "int list"
  travIdCur :: "nat set"
  pReprs :: "gia_rpr list"
  pNexts :: "int list"
  nSimWords :: nat
  iPatsPi :: int
  vSims :: "64 word list"
  vSimsPi :: "64 word list"
  pCexSeq :: "abc_cex option"

definition GIA_VOID :: nat where
  "GIA_VOID = 268435455"

section \<open>Bit-packed simulation: the candidate-equivalence test\<close>

text \<open>
  \<^verbatim>\<open>Cec2_ObjSim\<close> returns a pointer into the flat vector \<^verbatim>\<open>vSims\<close>, at word
  \<^verbatim>\<open>nSimWords * iObj\<close>; the pointer is the suffix of the vector from there.
\<close>

definition Cec2_ObjSim :: "gia_man \<Rightarrow> nat \<Rightarrow> 64 word list" where
  "Cec2_ObjSim p iObj = drop (nSimWords p * iObj) (vSims p)"

text \<open>The two loops of \<^verbatim>\<open>Cec2_ObjSimEqual\<close>, each leaving at the first mismatch.\<close>

function words_same_from :: "nat \<Rightarrow> nat \<Rightarrow> 64 word list \<Rightarrow> 64 word list \<Rightarrow> bool" where
  "words_same_from w n pSim0 pSim1 =
     (if w < n
      then (if pSim0 ! w \<noteq> pSim1 ! w then False
            else words_same_from (w + 1) n pSim0 pSim1)
      else True)"
  by pat_completeness auto
termination
  by (relation "measure (\<lambda>(w, n, a, b). n - w)") auto

declare words_same_from.simps [simp del]

function words_compl_from :: "nat \<Rightarrow> nat \<Rightarrow> 64 word list \<Rightarrow> 64 word list \<Rightarrow> bool" where
  "words_compl_from w n pSim0 pSim1 =
     (if w < n
      then (if pSim0 ! w \<noteq> NOT (pSim1 ! w) then False
            else words_compl_from (w + 1) n pSim0 pSim1)
      else True)"
  by pat_completeness auto
termination
  by (relation "measure (\<lambda>(w, n, a, b). n - w)") auto

declare words_compl_from.simps [simp del]

definition Cec2_ObjSimEqual :: "gia_man \<Rightarrow> nat \<Rightarrow> nat \<Rightarrow> bool" where
  "Cec2_ObjSimEqual p iObj0 iObj1 =
     (let pSim0 = Cec2_ObjSim p iObj0;
          pSim1 = Cec2_ObjSim p iObj1
      in if (pSim0 ! 0) AND 1 = (pSim1 ! 0) AND 1
         then words_same_from 0 (nSimWords p) pSim0 pSim1
         else words_compl_from 0 (nSimWords p) pSim0 pSim1)"

text \<open>
  The simulation vector \<open>sim[i][0..W)\<close> of a node, for stating properties, read from
  the store itself: \<^verbatim>\<open>Cec2_ManSimAlloc\<close> allocates \<open>W\<close> words for every object, one
  object after the other, so word \<open>w\<close> of node \<open>i\<close> is the word \<open>W * i + w\<close> of \<^verbatim>\<open>vSims\<close>.
\<close>

definition sim_vec :: "gia_man \<Rightarrow> nat \<Rightarrow> 64 word list" where
  "sim_vec p i = map (\<lambda>w. vSims p ! (nSimWords p * i + w)) [0..<nSimWords p]"

section \<open>Signature hashing\<close>

definition s_Primes :: "32 word list" where
  "s_Primes = [1291, 1699, 1999, 2357, 2953, 3313, 3907, 4177,
               4831, 5147, 5647, 6343, 6899, 7103, 7873, 8147]"

text \<open>
  The cast \<^verbatim>\<open>(unsigned *)pSim\<close>: every 64-bit word is read as two 32-bit halves, the
  low half first (little-endian).
\<close>

definition as_unsigned :: "64 word list \<Rightarrow> 32 word list" where
  "as_unsigned ws = concat (map (\<lambda>w. [ucast w, ucast (drop_bit 32 w)]) ws)"

text \<open>
  \<^verbatim>\<open>uHash % nTableSize\<close> is an unsigned remainder (the \<^verbatim>\<open>int\<close> table size is converted
  to \<^verbatim>\<open>unsigned\<close>); a zero table size is a division by zero, the value \<open>None\<close>.
\<close>

definition Cec2_ManSimHashKey :: "64 word list \<Rightarrow> nat \<Rightarrow> int \<Rightarrow> int option" where
  "Cec2_ManSimHashKey pSim nSims nTableSize =
     (let pSimU = as_unsigned pSim;
          nSimsU = 2 * nSims;
          uHash =
            (if (pSimU ! 0) AND 1 \<noteq> 0
             then fold (\<lambda>i h. h XOR NOT (pSimU ! i) * s_Primes ! (i AND 15)) [0..<nSimsU] 0
             else fold (\<lambda>i h. h XOR (pSimU ! i) * s_Primes ! (i AND 15)) [0..<nSimsU] 0)
      in if nTableSize = 0 then None
         else Some (sint (uHash mod (word_of_int nTableSize :: 32 word))))"

text \<open>A manager with no objects, the base of the concrete examples below.\<close>

definition gia_empty :: gia_man where
  "gia_empty = \<lparr> objs = [], vCis = [], vCos = [], vCopies = [], travIdCur = {},
      pReprs = [], pNexts = [], nSimWords = 0, iPatsPi = 0, vSims = [], vSimsPi = [],
      pCexSeq = None \<rparr>"

text \<open>Three nodes simulated with one word each; node 1 is the complement of node 0.\<close>

definition sim_example :: gia_man where
  "sim_example = gia_empty \<lparr> nSimWords := 1, vSims := [5, NOT 5, 7] \<rparr>"

section \<open>Errors, parameters and the external collaborators\<close>

text \<open>
  An assertion of cecSat.c that fails is \<open>AssertFailed n\<close>, \<open>n\<close> the line of the
  assertion in the file. \<open>BadAccess\<close> is a read or write outside an array, through a null
  pointer, or through the fanin fields of an object that has none (undefined behaviour
  in C). \<open>ConfigInvalid\<close> is the error kind the specification names for an impossible
  parameter.
\<close>

datatype cec_error = ConfigInvalid | AssertFailed nat | BadAccess

record cec2_par =
  nSimWords_par :: nat
  nSimRounds :: nat
  nConfLimit :: nat
  fIsMiter :: bool
  fVeryVerbose :: bool
  fVerbose :: bool

definition Cec2_SetDefaultParams :: cec2_par where
  "Cec2_SetDefaultParams = \<lparr> nSimWords_par = 8, nSimRounds = 4, nConfLimit = 1000,
      fIsMiter = False, fVeryVerbose = False, fVerbose = True \<rparr>"

datatype sat_status = SATOKO_SAT | SATOKO_UNSAT | SATOKO_UNDEC

text \<open>
  Modelled from the spec: the SAT solver is a black box (section 4.5) that allocates
  variables, stores clauses, keeps a stack of assumptions, answers a query with a
  status and a model, and is rolled back to its empty state after each query. \<open>queries\<close>
  records the assumptions of every call of \<^verbatim>\<open>satoko_solve\<close>, in order.
\<close>

record satoko =
  nVars :: nat
  clauses :: "int list list"
  assumptions :: "int list"
  polarity :: "bool list"
  n_conflicts :: nat
  queries :: "int list list"

text \<open>
  The parts of the repository that are not in cecSat.c and that the engine only calls:
  the recognition of the control, then and else inputs of a MUX node
  (\<^verbatim>\<open>Gia_ObjRecognizeMux\<close>), the answer of the solver to a set of clauses under
  assumptions, and the status the solver returns for a clause that is added to it in
  a given state (\<open>False\<close>, the value 0 of \<^verbatim>\<open>satoko_add_clause\<close>: the clause conflicts at
  the ground level).
\<close>

record externals =
  Gia_ObjRecognizeMux :: "gia_obj list \<Rightarrow> nat \<Rightarrow> nat \<times> obj_ptr \<times> obj_ptr"
  solver_answer :: "int list list \<Rightarrow> int list \<Rightarrow> sat_status \<times> bool list"
  add_clause_status :: "satoko \<Rightarrow> int list \<Rightarrow> bool"

definition satoko_create :: satoko where
  "satoko_create = \<lparr> nVars = 0, clauses = [], assumptions = [], polarity = [],
      n_conflicts = 0, queries = [] \<rparr>"

definition satoko_add_variable :: "satoko \<Rightarrow> int \<times> satoko" where
  "satoko_add_variable s = (int (nVars s), s \<lparr> nVars := nVars s + 1 \<rparr>)"

text \<open>
  \<^verbatim>\<open>satoko_add_clause\<close> returns its status together with the solver; a clause that is
  refused is not stored.
\<close>

definition satoko_add_clause :: "externals \<Rightarrow> satoko \<Rightarrow> int list \<Rightarrow> bool \<times> satoko" where
  "satoko_add_clause E s pLits =
     (if add_clause_status E s pLits
      then (True, s \<lparr> clauses := clauses s @ [pLits] \<rparr>)
      else (False, s))"

definition satoko_assump_push :: "satoko \<Rightarrow> int \<Rightarrow> satoko" where
  "satoko_assump_push s l = s \<lparr> assumptions := assumptions s @ [l] \<rparr>"

definition satoko_assump_pop :: "satoko \<Rightarrow> satoko" where
  "satoko_assump_pop s = s \<lparr> assumptions := butlast (assumptions s) \<rparr>"

definition satoko_solve :: "externals \<Rightarrow> satoko \<Rightarrow> sat_status \<times> satoko" where
  "satoko_solve E s =
     (let (status, mdl) = solver_answer E (clauses s) (assumptions s)
      in (status, s \<lparr> polarity := mdl, queries := queries s @ [assumptions s] \<rparr>))"

definition satoko_rollback :: "satoko \<Rightarrow> satoko" where
  "satoko_rollback s = s \<lparr> nVars := 0, clauses := [], assumptions := [] \<rparr>"

text \<open>\<^verbatim>\<open>var_polarity(pSat, v) == LIT_TRUE\<close>: the value of variable \<open>v\<close> in the model.\<close>

definition var_polarity_true :: "satoko \<Rightarrow> int \<Rightarrow> bool" where
  "var_polarity_true s v = polarity s ! nat v"

text \<open>
  Literals, as the glossary of the specification has them: twice the variable (or node)
  plus the complement bit.
\<close>

definition Abc_Var2Lit :: "int \<Rightarrow> bool \<Rightarrow> int" where
  "Abc_Var2Lit Var c = Var + Var + (if c then 1 else 0)"

definition Abc_Lit2Var :: "nat \<Rightarrow> nat" where
  "Abc_Lit2Var Lit = Lit div 2"

definition Abc_LitIsCompl :: "nat \<Rightarrow> bool" where
  "Abc_LitIsCompl Lit = odd Lit"

definition Abc_LitNotCond :: "nat \<Rightarrow> bool \<Rightarrow> nat" where
  "Abc_LitNotCond Lit c = Lit XOR (if c then 1 else 0)"

record cec2_man =
  pPars :: cec2_par
  pAig :: gia_man
  pNew :: gia_man
  pSat :: satoko
  vFrontier :: "nat list"
  vFanins :: "obj_ptr list"
  vNodesNew :: "nat list"
  vObjSatPairs :: "(nat \<times> int) list"
  vCexTriples :: "int list"

text \<open>
  Arithmetic on \<^verbatim>\<open>int\<close>: a value outside the 32-bit range wraps around (two's
  complement).
\<close>

definition int32 :: "int \<Rightarrow> int" where
  "int32 x = sint (word_of_int x :: 32 word)"

section \<open>Object predicates and the SAT variable map\<close>

definition Gia_ObjIsCi :: "gia_man \<Rightarrow> nat \<Rightarrow> bool" where
  "Gia_ObjIsCi p i = (case kind (objs p ! i) of Ci c \<Rightarrow> True | _ \<Rightarrow> False)"

definition Gia_ObjIsAnd :: "gia_man \<Rightarrow> nat \<Rightarrow> bool" where
  "Gia_ObjIsAnd p i = (case kind (objs p ! i) of And f0 c0 f1 c1 \<Rightarrow> True | _ \<Rightarrow> False)"

definition Gia_ObjIsConst0 :: "gia_man \<Rightarrow> nat \<Rightarrow> bool" where
  "Gia_ObjIsConst0 p i = (case kind (objs p ! i) of Const0 \<Rightarrow> True | _ \<Rightarrow> False)"

definition Gia_ObjFanin0 :: "gia_man \<Rightarrow> nat \<Rightarrow> nat option" where
  "Gia_ObjFanin0 p i =
     (case kind (objs p ! i) of And f0 c0 f1 c1 \<Rightarrow> Some f0 | Co f0 c0 \<Rightarrow> Some f0 | _ \<Rightarrow> None)"

definition Gia_ObjFanin1 :: "gia_man \<Rightarrow> nat \<Rightarrow> nat option" where
  "Gia_ObjFanin1 p i =
     (case kind (objs p ! i) of And f0 c0 f1 c1 \<Rightarrow> Some f1 | _ \<Rightarrow> None)"

definition Cec2_ObjSatId :: "gia_man \<Rightarrow> nat \<Rightarrow> int" where
  "Cec2_ObjSatId p i = vCopies p ! i"

definition Cec2_ObjSetSatId :: "gia_man \<Rightarrow> nat \<Rightarrow> int \<Rightarrow> cec_error + gia_man" where
  "Cec2_ObjSetSatId p i Num =
     (if \<not> i < length (vCopies p) then Inl BadAccess
      else if Cec2_ObjSatId p i \<noteq> - 1 then Inl (AssertFailed 62)
      else Inr (p \<lparr> vCopies := (vCopies p)[i := Num] \<rparr>))"

definition Cec2_ObjCleanSatId :: "gia_man \<Rightarrow> nat \<Rightarrow> cec_error + gia_man" where
  "Cec2_ObjCleanSatId p i =
     (if \<not> i < length (vCopies p) then Inl BadAccess
      else if Cec2_ObjSatId p i = - 1 then Inl (AssertFailed 63)
      else Inr (p \<lparr> vCopies := (vCopies p)[i := - 1] \<rparr>))"

section \<open>CNF construction\<close>

text \<open>
  \<^verbatim>\<open>fPolarFlip\<close> is the constant 0 in both clause builders, so the statements it guards
  never run and are left out. Every call of \<^verbatim>\<open>satoko_add_clause\<close> is followed by
  \<^verbatim>\<open>assert( RetValue )\<close>: a clause that the solver refuses stops the program there.
\<close>

definition Cec2_AddClausesMux :: "externals \<Rightarrow> gia_man \<Rightarrow> nat \<Rightarrow> satoko \<Rightarrow> cec_error + satoko" where
  "Cec2_AddClausesMux E p pNode s =
     (if \<not> fMark0 (objs p ! pNode) then Inl (AssertFailed 109)
      else
        (let (pNodeI, pNodeT, pNodeE) = Gia_ObjRecognizeMux E (objs p) pNode;
             VarF = Cec2_ObjSatId p pNode;
             VarI = Cec2_ObjSatId p pNodeI;
             VarT = Cec2_ObjSatId p (fst pNodeT);
             VarE = Cec2_ObjSatId p (fst pNodeE);
             fCompT = snd pNodeT;
             fCompE = snd pNodeE;
             (r1, s1) = satoko_add_clause E s
                    [Abc_Var2Lit VarI True, Abc_Var2Lit VarT (\<not> fCompT), Abc_Var2Lit VarF False]
         in if \<not> r1 then Inl (AssertFailed 139) else
        (let (r2, s2) = satoko_add_clause E s1
                    [Abc_Var2Lit VarI True, Abc_Var2Lit VarT fCompT, Abc_Var2Lit VarF True]
         in if \<not> r2 then Inl (AssertFailed 150) else
        (let (r3, s3) = satoko_add_clause E s2
                    [Abc_Var2Lit VarI False, Abc_Var2Lit VarE (\<not> fCompE), Abc_Var2Lit VarF False]
         in if \<not> r3 then Inl (AssertFailed 161) else
        (let (r4, s4) = satoko_add_clause E s3
                    [Abc_Var2Lit VarI False, Abc_Var2Lit VarE fCompE, Abc_Var2Lit VarF True]
         in if \<not> r4 then Inl (AssertFailed 172)
            else if VarT = VarE then Inr s4 else
        (let (r5, s5) = satoko_add_clause E s4
                    [Abc_Var2Lit VarT fCompT, Abc_Var2Lit VarE fCompE, Abc_Var2Lit VarF True]
         in if \<not> r5 then Inl (AssertFailed 197) else
        (let (r6, s6) = satoko_add_clause E s5
                    [Abc_Var2Lit VarT (\<not> fCompT), Abc_Var2Lit VarE (\<not> fCompE),
                     Abc_Var2Lit VarF False]
         in if \<not> r6 then Inl (AssertFailed 208) else Inr s6)))))))"

text \<open>
  The first loop of \<^verbatim>\<open>Cec2_AddClausesSuper\<close>: for every leaf the clause of two
  literals, with the assertion on the status of each.
\<close>

fun add_leaf_clauses ::
  "externals \<Rightarrow> gia_man \<Rightarrow> nat \<Rightarrow> obj_ptr list \<Rightarrow> satoko \<Rightarrow> cec_error + satoko" where
  "add_leaf_clauses E p pNode [] s = Inr s"
| "add_leaf_clauses E p pNode (pFanin # rest) s =
     (let (r, s1) = satoko_add_clause E s
                      [Abc_Var2Lit (Cec2_ObjSatId p (fst pFanin)) (snd pFanin),
                       Abc_Var2Lit (Cec2_ObjSatId p pNode) True]
      in if \<not> r then Inl (AssertFailed 232)
         else add_leaf_clauses E p pNode rest s1)"

definition Cec2_AddClausesSuper ::
  "externals \<Rightarrow> gia_man \<Rightarrow> nat \<Rightarrow> obj_ptr list \<Rightarrow> satoko \<Rightarrow> cec_error + satoko" where
  "Cec2_AddClausesSuper E p pNode vSuper s =
     (if \<not> Gia_ObjIsAnd p pNode then Inl (AssertFailed 216)
      else
        (case add_leaf_clauses E p pNode vSuper s of
           Inl e \<Rightarrow> Inl e
         | Inr s1 \<Rightarrow>
             (let pLits = map (\<lambda>pFanin. Abc_Var2Lit (Cec2_ObjSatId p (fst pFanin)) (\<not> snd pFanin)) vSuper
                          @ [Abc_Var2Lit (Cec2_ObjSatId p pNode) False];
                  (r, s2) = satoko_add_clause E s1 pLits
              in if \<not> r then Inl (AssertFailed 249) else Inr s2)))"

definition Vec_PtrPushUnique :: "obj_ptr list \<Rightarrow> obj_ptr \<Rightarrow> obj_ptr list" where
  "Vec_PtrPushUnique v x = (if x \<in> set v then v else v @ [x])"

text \<open>
  The fanins of an AND node are stored as positive offsets back into the object array,
  so they lie below the node; a node whose fanins do not is \<open>BadAccess\<close>.
  \<^verbatim>\<open>Gia_ObjValue\<close> returns the unsigned field \<^verbatim>\<open>Value\<close> as an \<^verbatim>\<open>int\<close>, so the
  comparison with 1 is a signed one.
\<close>

function Cec2_CollectSuper_rec ::
  "gia_man \<Rightarrow> obj_ptr \<Rightarrow> obj_ptr list \<Rightarrow> bool \<Rightarrow> bool \<Rightarrow> cec_error + obj_ptr list" where
  "Cec2_CollectSuper_rec p pObj vSuper fFirst fUseMuxes =
     (if snd pObj \<or> Gia_ObjIsCi p (fst pObj)
         \<or> (\<not> fFirst \<and> int32 (int (Value (objs p ! fst pObj))) > 1)
         \<or> (fUseMuxes \<and> fMark0 (objs p ! fst pObj))
      then Inr (Vec_PtrPushUnique vSuper pObj)
      else
        (case kind (objs p ! fst pObj) of
           And f0 c0 f1 c1 \<Rightarrow>
             if f0 < fst pObj \<and> f1 < fst pObj
             then (case Cec2_CollectSuper_rec p (f0, c0) vSuper False fUseMuxes of
                     Inl e \<Rightarrow> Inl e
                   | Inr v1 \<Rightarrow> Cec2_CollectSuper_rec p (f1, c1) v1 False fUseMuxes)
             else Inl BadAccess
         | _ \<Rightarrow> Inl BadAccess))"
  by pat_completeness auto
termination
  by (relation "measure (\<lambda>(p, pObj, v, a, b). fst pObj)") auto

declare Cec2_CollectSuper_rec.simps [simp del]

definition Cec2_CollectSuper :: "gia_man \<Rightarrow> nat \<Rightarrow> bool \<Rightarrow> cec_error + obj_ptr list" where
  "Cec2_CollectSuper p pObj fUseMuxes =
     (if Gia_ObjIsCi p pObj then Inl (AssertFailed 281)
      else Cec2_CollectSuper_rec p (pObj, False) [] True fUseMuxes)"

definition Cec2_ObjAddToFrontier :: "cec2_man \<Rightarrow> nat \<Rightarrow> cec_error + cec2_man" where
  "Cec2_ObjAddToFrontier m pObj =
     (if Gia_ObjIsConst0 (pNew m) pObj then Inl (AssertFailed 288)
      else if Cec2_ObjSatId (pNew m) pObj \<ge> 0 then Inr m
      else if Cec2_ObjSatId (pNew m) pObj \<noteq> - 1 then Inl (AssertFailed 291)
      else
        (let (v, s) = satoko_add_variable (pSat m)
         in case Cec2_ObjSetSatId (pNew m) pObj v of
              Inl e \<Rightarrow> Inl e
            | Inr g \<Rightarrow>
                Inr (m \<lparr> pNew := g, pSat := s,
                        vFrontier := (if Gia_ObjIsAnd g pObj then vFrontier m @ [pObj]
                                      else vFrontier m) \<rparr>)))"

fun add_fanins_to_frontier :: "cec2_man \<Rightarrow> obj_ptr list \<Rightarrow> cec_error + cec2_man" where
  "add_fanins_to_frontier m [] = Inr m"
| "add_fanins_to_frontier m (pFanin # rest) =
     (case Cec2_ObjAddToFrontier m (fst pFanin) of
        Inl e \<Rightarrow> Inl e
      | Inr m' \<Rightarrow> add_fanins_to_frontier m' rest)"

text \<open>The four grandchildren of a MUX node, in the order they are pushed.\<close>

definition mux_fanins :: "gia_man \<Rightarrow> nat \<Rightarrow> nat list option" where
  "mux_fanins p pNode =
     Option.bind (Gia_ObjFanin0 p pNode) (\<lambda>n0.
     Option.bind (Gia_ObjFanin1 p pNode) (\<lambda>n1.
     Option.bind (Gia_ObjFanin0 p n0) (\<lambda>a.
     Option.bind (Gia_ObjFanin0 p n1) (\<lambda>b.
     Option.bind (Gia_ObjFanin1 p n0) (\<lambda>c.
     Option.bind (Gia_ObjFanin1 p n1) (\<lambda>d. Some [a, b, c, d]))))))"

text \<open>The body of the frontier loop of \<^verbatim>\<open>Cec2_ObjGetCnfVar\<close> for one node (\<^verbatim>\<open>fUseMuxes = 1\<close>).\<close>

definition frontier_step :: "externals \<Rightarrow> cec2_man \<Rightarrow> nat \<Rightarrow> cec_error + cec2_man" where
  "frontier_step E m pNode =
     (if \<not> Cec2_ObjSatId (pNew m) pNode \<ge> 0 then Inl (AssertFailed 315)
      else if fMark0 (objs (pNew m) ! pNode) then
        (case mux_fanins (pNew m) pNode of
           None \<Rightarrow> Inl BadAccess
         | Some gs \<Rightarrow>
             (let m1 = m \<lparr> vFanins := fold (\<lambda>g v. Vec_PtrPushUnique v (g, False)) gs [] \<rparr>
              in case add_fanins_to_frontier m1 (vFanins m1) of
                   Inl e \<Rightarrow> Inl e
                 | Inr m2 \<Rightarrow>
                     (case Cec2_AddClausesMux E (pNew m2) pNode (pSat m2) of
                        Inl e \<Rightarrow> Inl e
                      | Inr s \<Rightarrow>
                          if length (vFanins m2) > 1 then Inr (m2 \<lparr> pSat := s \<rparr>)
                          else Inl (AssertFailed 334))))
      else
        (case Cec2_CollectSuper (pNew m) pNode True of
           Inl e \<Rightarrow> Inl e
         | Inr vs \<Rightarrow>
             (let m1 = m \<lparr> vFanins := vs \<rparr>
              in case add_fanins_to_frontier m1 (vFanins m1) of
                   Inl e \<Rightarrow> Inl e
                 | Inr m2 \<Rightarrow>
                     (case Cec2_AddClausesSuper E (pNew m2) pNode (vFanins m2) (pSat m2) of
                        Inl e \<Rightarrow> Inl e
                      | Inr s \<Rightarrow>
                          if length (vFanins m2) > 1 then Inr (m2 \<lparr> pSat := s \<rparr>)
                          else Inl (AssertFailed 334)))))"


section \<open>The frontier loop and the SAT variable of a node\<close>

text \<open>The number of objects of the rebuilt AIG that have no SAT variable.\<close>

definition unassigned :: "gia_man \<Rightarrow> nat" where
  "unassigned g = length (filter (\<lambda>v. v = - 1) (vCopies g))"

lemma filter_update_less:
  "i < length xs \<Longrightarrow> xs ! i = a \<Longrightarrow> b \<noteq> a \<Longrightarrow>
   Suc (length (filter (\<lambda>v. v = a) (xs[i := b]))) = length (filter (\<lambda>v. v = a) xs)"
proof (induction xs arbitrary: i)
  case Nil
  then show ?case by simp
next
  case (Cons x xs)
  then show ?case by (cases i) auto
qed

lemma Cec2_ObjSetSatId_unassigned:
  "Cec2_ObjSetSatId g i v = Inr g' \<Longrightarrow> 0 \<le> v \<Longrightarrow> Suc (unassigned g') = unassigned g"
  by (auto simp: Cec2_ObjSetSatId_def Cec2_ObjSatId_def unassigned_def filter_update_less
      split: if_splits)

lemma Cec2_ObjAddToFrontier_measure:
  assumes "Cec2_ObjAddToFrontier m i = Inr m'"
  shows "length (vFrontier m') + unassigned (pNew m') \<le> length (vFrontier m) + unassigned (pNew m)
       \<and> length (vFrontier m) \<le> length (vFrontier m')"
proof (cases "Cec2_ObjSatId (pNew m) i \<ge> 0")
  case True
  with assms show ?thesis
    by (auto simp: Cec2_ObjAddToFrontier_def split: if_splits)
next
  case False
  with assms obtain g where
    g: "Cec2_ObjSetSatId (pNew m) i (int (nVars (pSat m))) = Inr g" and
    m': "pNew m' = g" "length (vFrontier m') \<le> Suc (length (vFrontier m))"
        "length (vFrontier m) \<le> length (vFrontier m')"
    by (auto simp: Cec2_ObjAddToFrontier_def satoko_add_variable_def
        split: if_splits sum.splits)
  from Cec2_ObjSetSatId_unassigned [OF g] have "Suc (unassigned g) = unassigned (pNew m)"
    by simp
  with m' show ?thesis by simp
qed

lemma add_fanins_to_frontier_measure:
  "add_fanins_to_frontier m fs = Inr m' \<Longrightarrow>
   length (vFrontier m') + unassigned (pNew m') \<le> length (vFrontier m) + unassigned (pNew m)
   \<and> length (vFrontier m) \<le> length (vFrontier m')"
proof (induction fs arbitrary: m)
  case Nil
  then show ?case by simp
next
  case (Cons f fs)
  from Cons.prems obtain m1 where
    s1: "Cec2_ObjAddToFrontier m (fst f) = Inr m1" and s2: "add_fanins_to_frontier m1 fs = Inr m'"
    by (auto split: sum.splits)
  from Cec2_ObjAddToFrontier_measure [OF s1] Cons.IH [OF s2] show ?case by linarith
qed

lemma frontier_step_Inr:
  assumes "frontier_step E m n = Inr m'"
  shows "\<exists>fs m2 s. add_fanins_to_frontier (m \<lparr> vFanins := fs \<rparr>) fs = Inr m2
                   \<and> m' = m2 \<lparr> pSat := s \<rparr>"
proof (cases "fMark0 (objs (pNew m) ! n)")
  case True
  with assms show ?thesis
    unfolding frontier_step_def Let_def
    by (simp split: if_splits option.splits sum.splits) blast
next
  case False
  with assms show ?thesis
    unfolding frontier_step_def Let_def
    by (simp split: if_splits option.splits sum.splits) blast
qed

lemma frontier_step_measure:
  assumes "frontier_step E m n = Inr m'"
  shows "length (vFrontier m') + unassigned (pNew m') \<le> length (vFrontier m) + unassigned (pNew m)
       \<and> length (vFrontier m) \<le> length (vFrontier m')"
proof -
  from frontier_step_Inr [OF assms] obtain fs m2 s where
    m2: "add_fanins_to_frontier (m \<lparr> vFanins := fs \<rparr>) fs = Inr m2" and
    m': "m' = m2 \<lparr> pSat := s \<rparr>"
    by blast
  from add_fanins_to_frontier_measure [OF m2] m' show ?thesis by simp
qed

function frontier_loop :: "externals \<Rightarrow> cec2_man \<Rightarrow> nat \<Rightarrow> cec_error + cec2_man" where
  "frontier_loop E m i =
     (if i < length (vFrontier m)
      then (case frontier_step E m (vFrontier m ! i) of
              Inl e \<Rightarrow> Inl e
            | Inr m' \<Rightarrow> frontier_loop E m' (i + 1))
      else Inr m)"
  by pat_completeness auto
termination
proof (relation "measure (\<lambda>(E, m, i). length (vFrontier m) + unassigned (pNew m) - i)")
  show "wf (measure (\<lambda>(E, m, i). length (vFrontier m) + unassigned (pNew m) - i))"
    by simp
next
  fix E :: externals and m m' :: cec2_man and i :: nat
  assume i: "i < length (vFrontier m)" and step: "frontier_step E m (vFrontier m ! i) = Inr m'"
  from frontier_step_measure [OF step] i
  have "length (vFrontier m') + unassigned (pNew m') - (i + 1)
        < length (vFrontier m) + unassigned (pNew m) - i"
    by linarith
  then show "((E, m', i + 1), (E, m, i))
        \<in> measure (\<lambda>(E, m, i). length (vFrontier m) + unassigned (pNew m) - i)"
    by simp
qed

declare frontier_loop.simps [simp del]

definition Cec2_ObjGetCnfVar :: "externals \<Rightarrow> cec2_man \<Rightarrow> nat \<Rightarrow> cec_error + (int \<times> cec2_man)" where
  "Cec2_ObjGetCnfVar E m iObj =
     (if \<not> iObj < length (objs (pNew m)) then Inl BadAccess
      else if Cec2_ObjSatId (pNew m) iObj \<ge> 0 then Inr (Cec2_ObjSatId (pNew m) iObj, m)
      else if \<not> iObj > 0 then Inl (AssertFailed 304)
      else if Gia_ObjIsCi (pNew m) iObj then
        (let (v, s) = satoko_add_variable (pSat m)
         in case Cec2_ObjSetSatId (pNew m) iObj v of
              Inl e \<Rightarrow> Inl e
            | Inr g \<Rightarrow> Inr (v, m \<lparr> pNew := g, pSat := s \<rparr>))
      else if \<not> Gia_ObjIsAnd (pNew m) iObj then Inl (AssertFailed 307)
      else
        (case Cec2_ObjAddToFrontier (m \<lparr> vFrontier := [] \<rparr>) iObj of
           Inl e \<Rightarrow> Inl e
         | Inr m1 \<Rightarrow>
             (case frontier_loop E m1 0 of
                Inl e \<Rightarrow> Inl e
              | Inr m2 \<Rightarrow> Inr (Cec2_ObjSatId (pNew m2) iObj, m2))))"

section \<open>Solving a pair of nodes\<close>

definition Gia_ManIncrementTravId :: "gia_man \<Rightarrow> gia_man" where
  "Gia_ManIncrementTravId p = p \<lparr> travIdCur := {} \<rparr>"

definition Gia_ObjSetTravIdCurrentId :: "gia_man \<Rightarrow> nat \<Rightarrow> gia_man" where
  "Gia_ObjSetTravIdCurrentId p i = p \<lparr> travIdCur := insert i (travIdCur p) \<rparr>"

definition Gia_ManCiIdToId :: "gia_man \<Rightarrow> nat \<Rightarrow> nat" where
  "Gia_ManCiIdToId p c = vCis p ! c"

function Cec2_ManCollect_rec :: "cec2_man \<Rightarrow> nat \<Rightarrow> cec_error + cec2_man" where
  "Cec2_ManCollect_rec m iObj =
     (if iObj \<in> travIdCur (pNew m) then Inr m
      else
        (let m1 = m \<lparr> pNew := Gia_ObjSetTravIdCurrentId (pNew m) iObj \<rparr>;
             m2 = (if Cec2_ObjSatId (pNew m1) iObj \<ge> 0
                   then m1 \<lparr> vNodesNew := vNodesNew m1 @ [iObj] \<rparr> else m1)
         in if iObj = 0 then Inr m2
            else
              (case kind (objs (pNew m2) ! iObj) of
                 And f0 c0 f1 c1 \<Rightarrow>
                   if f0 < iObj \<and> f1 < iObj
                   then (case Cec2_ManCollect_rec m2 f0 of
                           Inl e \<Rightarrow> Inl e
                         | Inr m3 \<Rightarrow> Cec2_ManCollect_rec m3 f1)
                   else Inl BadAccess
               | Ci c \<Rightarrow>
                   if \<not> Cec2_ObjSatId (pNew m2) iObj \<ge> 0 then Inl (AssertFailed 743)
                   else Inr (m2 \<lparr> vObjSatPairs := vObjSatPairs m2
                                  @ [(Gia_ManCiIdToId (pAig m2) c, Cec2_ObjSatId (pNew m2) iObj)] \<rparr>)
               | _ \<Rightarrow> Inl BadAccess)))"
  by pat_completeness auto
termination
  by (relation "measure (\<lambda>(m, iObj). iObj)") auto

declare Cec2_ManCollect_rec.simps [simp del]

fun clean_sat_ids :: "gia_man \<Rightarrow> nat list \<Rightarrow> cec_error + gia_man" where
  "clean_sat_ids g [] = Inr g"
| "clean_sat_ids g (i # rest) =
     (case Cec2_ObjCleanSatId g i of
        Inl e \<Rightarrow> Inl e
      | Inr g' \<Rightarrow> clean_sat_ids g' rest)"

text \<open>One query: push the two assumptions, solve, pop them.\<close>

definition solve_under :: "externals \<Rightarrow> satoko \<Rightarrow> int \<Rightarrow> int \<Rightarrow> sat_status \<times> satoko" where
  "solve_under E s l0 l1 =
     (let (status, t) = satoko_solve E (satoko_assump_push (satoko_assump_push s l0) l1)
      in (status, satoko_assump_pop (satoko_assump_pop t)))"

text \<open>
  The queries of \<^verbatim>\<open>Cec2_ManSolveTwo\<close>: the direct one and, when it is unsatisfiable and
  \<^verbatim>\<open>iObj0 > 0\<close>, the reverse one. The result is the last status and the solver.
\<close>

definition two_queries ::
  "externals \<Rightarrow> satoko \<Rightarrow> nat \<Rightarrow> int \<Rightarrow> int \<Rightarrow> bool \<Rightarrow> sat_status \<times> satoko" where
  "two_queries E s iObj0 iVar0 iVar1 fPh =
     (let (status1, s1) = solve_under E s (Abc_Var2Lit iVar0 True) (Abc_Var2Lit iVar1 fPh)
      in if status1 = SATOKO_UNSAT \<and> iObj0 > 0
         then solve_under E s1 (Abc_Var2Lit iVar0 False) (Abc_Var2Lit iVar1 (\<not> fPh))
         else (status1, s1))"

text \<open>
  The CNF construction of \<^verbatim>\<open>Cec2_ManSolveTwo\<close>: a variable for the constant when
  \<^verbatim>\<open>iObj0\<close> is the constant, then \<^verbatim>\<open>iVar0\<close> and \<^verbatim>\<open>iVar1\<close> from \<^verbatim>\<open>Cec2_ObjGetCnfVar\<close>
  on \<^verbatim>\<open>iObj0\<close> and on \<^verbatim>\<open>iObj1\<close>, in this order.
\<close>

definition cnf_vars ::
  "externals \<Rightarrow> cec2_man \<Rightarrow> nat \<Rightarrow> nat \<Rightarrow> cec_error + (int \<times> int \<times> cec2_man)" where
  "cnf_vars E m iObj0 iObj1 =
     (case (if iObj0 = 0
            then (let (v, s) = satoko_add_variable (pSat m)
                  in case Cec2_ObjSetSatId (pNew m) 0 v of
                       Inl e \<Rightarrow> Inl e
                     | Inr g \<Rightarrow> Inr (m \<lparr> pNew := g, pSat := s \<rparr>))
            else Inr m) of
        Inl e \<Rightarrow> Inl e
      | Inr m0 \<Rightarrow>
     (case Cec2_ObjGetCnfVar E m0 iObj0 of
        Inl e \<Rightarrow> Inl e
      | Inr (iVar0, m1) \<Rightarrow>
     (case Cec2_ObjGetCnfVar E m1 iObj1 of
        Inl e \<Rightarrow> Inl e
      | Inr (iVar1, m2) \<Rightarrow> Inr (iVar0, iVar1, m2))))"

definition Cec2_ManSolveTwo ::
  "externals \<Rightarrow> cec2_man \<Rightarrow> nat \<Rightarrow> nat \<Rightarrow> bool \<Rightarrow> cec_error + (sat_status \<times> cec2_man)" where
  "Cec2_ManSolveTwo E m a b fPh =
     (let iObj0 = (if b < a then b else a);
          iObj1 = (if b < a then a else b)
      in if \<not> iObj0 < iObj1 then Inl (AssertFailed 753)
         else if nVars (pSat m) \<noteq> 0 then Inl (AssertFailed 754)
         else
           (case cnf_vars E m iObj0 iObj1 of
              Inl e \<Rightarrow> Inl e
            | Inr (iVar0, iVar1, m2) \<Rightarrow>
           (case Cec2_ManCollect_rec
                   (m2 \<lparr> vNodesNew := [], vObjSatPairs := [],
                         pNew := Gia_ManIncrementTravId (pNew m2) \<rparr>) iObj0 of
              Inl e \<Rightarrow> Inl e
            | Inr m3 \<Rightarrow>
           (case Cec2_ManCollect_rec m3 iObj1 of
              Inl e \<Rightarrow> Inl e
            | Inr m4 \<Rightarrow>
               (case two_queries E (pSat m4) iObj0 iVar0 iVar1 fPh of
                  (status, s2) \<Rightarrow>
                    (case clean_sat_ids (pNew m4) (vNodesNew m4) of
                       Inl e \<Rightarrow> Inl e
                     | Inr g \<Rightarrow> Inr (status, m4 \<lparr> pNew := g, pSat := s2 \<rparr>)))))))"

section \<open>Sweeping one node\<close>

text \<open>
  \<^verbatim>\<open>Abc_InfoHasBit\<close> and \<^verbatim>\<open>Abc_InfoXorBit\<close> on \<^verbatim>\<open>(unsigned *)pSim\<close>: bit \<open>i\<close> of the
  vector is bit \<open>i mod 64\<close> of its word \<open>i div 64\<close> (little-endian halves).
\<close>

definition Abc_InfoHasBit :: "64 word list \<Rightarrow> nat \<Rightarrow> bool" where
  "Abc_InfoHasBit pSim i = bit (pSim ! (i div 64)) (i mod 64)"

definition Cec2_ObjSimSetInputBit :: "gia_man \<Rightarrow> nat \<Rightarrow> bool \<Rightarrow> gia_man" where
  "Cec2_ObjSimSetInputBit p iObj Bit =
     (let i = nat (iPatsPi p);
          w = nSimWords p * iObj + i div 64
      in if Abc_InfoHasBit (Cec2_ObjSim p iObj) i \<noteq> Bit
         then p \<lparr> vSims := (vSims p)[w := (vSims p ! w) XOR push_bit (i mod 64) 1] \<rparr>
         else p)"

definition Gia_ObjSetProved :: "gia_man \<Rightarrow> nat \<Rightarrow> gia_man" where
  "Gia_ObjSetProved p i = p \<lparr> pReprs := (pReprs p)[i := (pReprs p ! i) \<lparr> fProved := True \<rparr>] \<rparr>"

definition Gia_ObjSetFailed :: "gia_man \<Rightarrow> nat \<Rightarrow> gia_man" where
  "Gia_ObjSetFailed p i = p \<lparr> pReprs := (pReprs p)[i := (pReprs p ! i) \<lparr> fFailed := True \<rparr>] \<rparr>"

text \<open>The end of \<^verbatim>\<open>Cec2_ManSweepNode\<close>: roll the solver back and reset its conflict count.\<close>

definition sweep_finish :: "cec2_man \<Rightarrow> cec2_man" where
  "sweep_finish m = m \<lparr> pSat := (satoko_rollback (pSat m)) \<lparr> n_conflicts := 0 \<rparr> \<rparr>"

text \<open>
  The representative of a node without one is the null pointer, whose fields the
  function would read: \<open>BadAccess\<close>.

  \<open>sweep_branches\<close> is \<^verbatim>\<open>Cec2_ManSweepNode\<close> up to the end of its three branches: the
  result is the status of the call of \<^verbatim>\<open>Cec2_ManSolveTwo\<close>, \<^verbatim>\<open>RetValue\<close> and the manager
  as the branch leaves it. In the last branch (UNDEC) this is the manager in which the
  assertion of line 811 is evaluated, after \<^verbatim>\<open>Gia_ObjSetFailed\<close>.
\<close>

definition sweep_branches ::
  "externals \<Rightarrow> cec2_man \<Rightarrow> nat \<Rightarrow> cec_error + (sat_status \<times> int \<times> cec2_man)" where
  "sweep_branches E m iObj =
     (let pObj = objs (pAig m) ! iObj;
          r = iRepr (pReprs (pAig m) ! iObj)
      in if r = GIA_VOID then Inl BadAccess
         else
           (let pRepr = objs (pAig m) ! r;
                fCompl = (((Abc_LitIsCompl (Value pObj) \<noteq> Abc_LitIsCompl (Value pRepr))
                            \<noteq> fPhase pObj) \<noteq> fPhase pRepr)
            in case Cec2_ManSolveTwo E m (Abc_Lit2Var (Value pRepr)) (Abc_Lit2Var (Value pObj)) fCompl of
                 Inl e \<Rightarrow> Inl e
               | Inr (status, m1) \<Rightarrow>
                   (case status of
                      SATOKO_SAT \<Rightarrow>
                        (let g = pAig m1;
                             g1 = g \<lparr> iPatsPi :=
                                    (if iPatsPi g = int32 (int32 (64 * int (nSimWords g)) - 1) then 1
                                     else int32 (iPatsPi g + 1)) \<rparr>
                         in if \<not> (iPatsPi g1 > 0 \<and> iPatsPi g1 < int32 (64 * int (nSimWords g1)))
                            then Inl (AssertFailed 797)
                            else Inr (SATOKO_SAT, 0, m1 \<lparr> pAig :=
                                   fold (\<lambda>(IdAig, IdSat) h.
                                           Cec2_ObjSimSetInputBit h IdAig (var_polarity_true (pSat m1) IdSat))
                                        (vObjSatPairs m1) g1 \<rparr>))
                    | SATOKO_UNSAT \<Rightarrow>
                        (let g = pAig m1;
                             g1 = g \<lparr> objs := (objs g)[iObj := (objs g ! iObj)
                                         \<lparr> Value := Abc_LitNotCond (Value pRepr) fCompl \<rparr>] \<rparr>;
                             g2 = Gia_ObjSetProved g1 iObj
                         in Inr (SATOKO_UNSAT, 1, m1 \<lparr> pAig := g2 \<rparr>))
                    | SATOKO_UNDEC \<Rightarrow>
                        (let g2 = Gia_ObjSetFailed (pAig m1) iObj
                         in Inr (SATOKO_UNDEC, 1, m1 \<lparr> pAig := g2 \<rparr>)))))"

text \<open>
  After the branches: the last one ends in \<^verbatim>\<open>assert( 0 )\<close> (line 811), where the program
  stops; the other two go on to the rollback and return \<^verbatim>\<open>RetValue\<close>.
\<close>

definition Cec2_ManSweepNode :: "externals \<Rightarrow> cec2_man \<Rightarrow> nat \<Rightarrow> cec_error + (int \<times> cec2_man)" where
  "Cec2_ManSweepNode E m iObj =
     (case sweep_branches E m iObj of
        Inl e \<Rightarrow> Inl e
      | Inr (status, RetValue, m2) \<Rightarrow>
          if status = SATOKO_UNDEC then Inl (AssertFailed 811)
          else Inr (RetValue, sweep_finish m2))"

section \<open>Engine construction\<close>

definition Cec2_ManSimAlloc :: "gia_man \<Rightarrow> nat \<Rightarrow> gia_man" where
  "Cec2_ManSimAlloc p nWords =
     p \<lparr> vSims := replicate (length (objs p) * nWords) 0, vSimsPi := [], nSimWords := nWords \<rparr>"

definition Gia_ManStart :: gia_man where
  "Gia_ManStart = gia_empty \<lparr> objs :=
     [\<lparr> kind = Const0, fMark0 = False, fMark1 = False, fPhase = False, Value = 0 \<rparr>] \<rparr>"

definition Gia_ManAppendCi :: "gia_man \<Rightarrow> nat \<times> gia_man" where
  "Gia_ManAppendCi p =
     (2 * length (objs p),
      p \<lparr> objs := objs p @ [\<lparr> kind = Ci (length (vCis p)), fMark0 = False, fMark1 = False,
                              fPhase = False, Value = 0 \<rparr>],
          vCis := vCis p @ [length (objs p)] \<rparr>)"

text \<open>
  \<^verbatim>\<open>Cec2_ManCreate\<close> has no failing path: it never inspects the parameters, and its
  result is always a manager.
\<close>

definition Cec2_ManCreate :: "gia_man \<Rightarrow> cec2_par \<Rightarrow> cec_error + cec2_man" where
  "Cec2_ManCreate a pars =
     (let a0 = a \<lparr> objs := map (\<lambda>ob. ob \<lparr> Value := 4294967295 \<rparr>) (objs a) \<rparr>;
          a1 = a0 \<lparr> objs := (objs a0)[0 := (objs a0 ! 0) \<lparr> Value := 0 \<rparr>] \<rparr>;
          (a2, n) = fold (\<lambda>iId (g, h). let (lit, h') = Gia_ManAppendCi h
                                       in (g \<lparr> objs := (objs g)[iId := (objs g ! iId) \<lparr> Value := lit \<rparr>] \<rparr>, h'))
                         (vCis a1) (a1, Gia_ManStart);
          n1 = n \<lparr> vCopies := replicate (length (objs n)) (- 1) \<rparr>
      in Inr \<lparr> pPars = pars, pAig = a2, pNew = n1, pSat = satoko_create, vFrontier = [],
               vFanins = [], vNodesNew = [], vObjSatPairs = [], vCexTriples = [] \<rparr>)"

section \<open>Random patterns and the miter shortcut\<close>

text \<open>
  The random generator \<^verbatim>\<open>Gia_ManRandomW\<close> is a stream \<open>rnd\<close> of words and the number of
  words drawn so far. Writing word 0 of a node outside the simulation store is
  \<open>BadAccess\<close>.
\<close>

definition Cec2_ObjSimCi ::
  "(nat \<Rightarrow> 64 word) \<Rightarrow> gia_man \<times> nat \<Rightarrow> nat \<Rightarrow> cec_error + (gia_man \<times> nat)" where
  "Cec2_ObjSimCi rnd st iObj =
     (let p = fst st; k = snd st; off = nSimWords p * iObj;
          sims = fold (\<lambda>w v. v[off + w := rnd (k + w)]) [0..<nSimWords p] (vSims p)
      in if \<not> off < length sims then Inl BadAccess
         else Inr (p \<lparr> vSims := sims[off := push_bit 1 (sims ! off)] \<rparr>, k + nSimWords p))"

fun sim_cis_loop ::
  "(nat \<Rightarrow> 64 word) \<Rightarrow> gia_man \<times> nat \<Rightarrow> nat list \<Rightarrow> cec_error + (gia_man \<times> nat)" where
  "sim_cis_loop rnd st [] = Inr st"
| "sim_cis_loop rnd st (iId # rest) =
     (case Cec2_ObjSimCi rnd st iId of
        Inl e \<Rightarrow> Inl e
      | Inr st' \<Rightarrow> sim_cis_loop rnd st' rest)"

definition Cec2_ManSimulateCis ::
  "(nat \<Rightarrow> 64 word) \<Rightarrow> gia_man \<times> nat \<Rightarrow> cec_error + (gia_man \<times> nat)" where
  "Cec2_ManSimulateCis rnd st =
     (case sim_cis_loop rnd st (vCis (fst st)) of
        Inl e \<Rightarrow> Inl e
      | Inr (p, k) \<Rightarrow> Inr (p \<lparr> iPatsPi := 1 \<rparr>, k))"

text \<open>
  Modelled from the spec: \<^verbatim>\<open>Gia_ManSetPhase\<close> (not in cecSat.c) computes, object by
  object in index order, the phase of every node: its value under the all-zero
  assignment of the combinational inputs.
\<close>

definition Gia_ObjSetPhase :: "gia_obj list \<Rightarrow> nat \<Rightarrow> gia_obj list" where
  "Gia_ObjSetPhase os i =
     os[i := (os ! i) \<lparr> fPhase :=
        (case kind (os ! i) of
           And f0 c0 f1 c1 \<Rightarrow> (fPhase (os ! f0) \<noteq> c0) \<and> (fPhase (os ! f1) \<noteq> c1)
         | Co f0 c0 \<Rightarrow> (fPhase (os ! f0) \<noteq> c0)
         | _ \<Rightarrow> False) \<rparr>]"

definition Gia_ManSetPhase :: "gia_man \<Rightarrow> gia_man" where
  "Gia_ManSetPhase p = p \<lparr> objs := fold (\<lambda>i os. Gia_ObjSetPhase os i) [0..<length (objs p)] (objs p) \<rparr>"

definition Abc_CexAlloc :: "nat \<Rightarrow> nat \<Rightarrow> nat \<Rightarrow> abc_cex" where
  "Abc_CexAlloc nRegs nRealPis nFrames =
     \<lparr> iPo = 0, nPis = nRealPis, pData = replicate (nRegs + nRealPis * nFrames) False \<rparr>"

definition Cec2_ManDeriveCex :: "gia_man \<Rightarrow> int \<Rightarrow> int \<Rightarrow> abc_cex" where
  "Cec2_ManDeriveCex p iOut iPat =
     (let pCex = (Abc_CexAlloc 0 (length (vCis p)) 1) \<lparr> iPo := iOut \<rparr>
      in if iPat = - 1 then pCex
         else pCex \<lparr> pData :=
                fold (\<lambda>i d. if Abc_InfoHasBit (Cec2_ObjSim p (vCis p ! i)) (nat iPat)
                             then d[i := True] else d)
                     [0..<length (vCis p)] (pData pCex) \<rparr>)"

text \<open>The loop over the outputs in miter mode: the index of the first one with phase 1.\<close>

fun first_phase_co :: "gia_man \<Rightarrow> nat list \<Rightarrow> nat \<Rightarrow> nat option" where
  "first_phase_co p [] i = None"
| "first_phase_co p (iId # rest) i =
     (if fPhase (objs p ! iId) then Some i else first_phase_co p rest (i + 1))"

text \<open>
  \<^verbatim>\<open>Cec2_ManPerformSweeping\<close> up to the allocation of the simulation store. Everything
  after it (simulation rounds, class creation and the sweeping loop) is the
  continuation \<open>rest\<close>.
\<close>

definition Cec2_ManPerformSweeping ::
  "(gia_man \<Rightarrow> cec2_par \<Rightarrow> cec_error + (int \<times> gia_man))
   \<Rightarrow> gia_man \<Rightarrow> cec2_par \<Rightarrow> cec_error + (int \<times> gia_man)" where
  "Cec2_ManPerformSweeping rest p pars =
     (let p1 = Gia_ManSetPhase p
      in case (if fIsMiter pars then first_phase_co p1 (vCos p1) 0 else None) of
           Some i \<Rightarrow> Inr (0, p1 \<lparr> pCexSeq := Some (Cec2_ManDeriveCex p1 (int i) (- 1)) \<rparr>)
         | None \<Rightarrow> rest (Cec2_ManSimAlloc p1 (nSimWords_par pars)) pars)"

section \<open>Class refinement\<close>

definition Gia_ObjNext :: "gia_man \<Rightarrow> nat \<Rightarrow> int" where
  "Gia_ObjNext p i = pNexts p ! i"

definition Gia_ObjSetNext :: "gia_man \<Rightarrow> nat \<Rightarrow> int \<Rightarrow> gia_man" where
  "Gia_ObjSetNext p i n = p \<lparr> pNexts := (pNexts p)[i := n] \<rparr>"

definition Gia_ObjRepr :: "gia_man \<Rightarrow> nat \<Rightarrow> nat" where
  "Gia_ObjRepr p i = iRepr (pReprs p ! i)"

definition Gia_ObjSetRepr :: "gia_man \<Rightarrow> nat \<Rightarrow> nat \<Rightarrow> gia_man" where
  "Gia_ObjSetRepr p i r = p \<lparr> pReprs := (pReprs p)[i := (pReprs p ! i) \<lparr> iRepr := r \<rparr>] \<rparr>"

text \<open>
  The first loop of \<^verbatim>\<open>Cec2_ManSimClassRefineOne\<close>: walk the members while they are
  equal to the head; the result is \<^verbatim>\<open>(iPrev, iRepr2)\<close>. A chain of next links that
  never ends makes the loop run forever: the value \<open>None\<close>.
\<close>

partial_function (option) refine_scan ::
  "gia_man \<Rightarrow> nat \<Rightarrow> nat \<Rightarrow> int \<Rightarrow> (nat \<times> int) option" where
  "refine_scan p iRep iPrev iRepr2 =
     (if iRepr2 > 0
      then (if Cec2_ObjSimEqual p iRep (nat iRepr2)
            then refine_scan p iRep (nat iRepr2) (Gia_ObjNext p (nat iRepr2))
            else Some (iPrev, iRepr2))
      else Some (iPrev, iRepr2))"

text \<open>The second loop: relink the remaining members; the result is the manager, \<^verbatim>\<open>iPrev\<close> and \<^verbatim>\<open>iPrev2\<close>.\<close>

partial_function (option) refine_relink ::
  "gia_man \<Rightarrow> nat \<Rightarrow> nat \<Rightarrow> nat \<Rightarrow> nat \<Rightarrow> int \<Rightarrow> (gia_man \<times> nat \<times> nat) option" where
  "refine_relink p iRep iRepr2 iPrev iPrev2 iObj =
     (if iObj > 0
      then (if Cec2_ObjSimEqual p iRep (nat iObj)
            then (let p' = Gia_ObjSetNext p iPrev iObj
                  in refine_relink p' iRep iRepr2 (nat iObj) iPrev2 (Gia_ObjNext p' (nat iObj)))
            else (let p' = Gia_ObjSetNext (Gia_ObjSetRepr p (nat iObj) iRepr2) iPrev2 iObj
                  in refine_relink p' iRep iRepr2 iPrev (nat iObj) (Gia_ObjNext p' (nat iObj))))
      else Some (p, iPrev, iPrev2))"

definition Cec2_ManSimClassRefineOne :: "gia_man \<Rightarrow> nat \<Rightarrow> gia_man option" where
  "Cec2_ManSimClassRefineOne p iRep =
     (case refine_scan p iRep iRep (Gia_ObjNext p iRep) of
        None \<Rightarrow> None
      | Some (iPrev, iRepr2) \<Rightarrow>
          if iRepr2 \<le> 0 then Some p
          else
            (let p1 = Gia_ObjSetRepr p (nat iRepr2) GIA_VOID
             in case refine_relink p1 iRep (nat iRepr2) iPrev (nat iRepr2)
                       (Gia_ObjNext p1 (nat iRepr2)) of
                  None \<Rightarrow> None
                | Some (p2, iPrevA, iPrevB) \<Rightarrow>
                    Some (Gia_ObjSetNext (Gia_ObjSetNext p2 iPrevA (- 1)) iPrevB (- 1))))"

text \<open>The members of a class after its head, read off the next links.\<close>

fun is_chain :: "int list \<Rightarrow> int \<Rightarrow> nat list \<Rightarrow> bool" where
  "is_chain nx n [] = (n \<le> 0)"
| "is_chain nx n (x # xs) = (n = int x \<and> 0 < x \<and> x < length nx \<and> is_chain nx (nx ! x) xs)"

text \<open>Following the next links from \<open>x\<close> visits the objects \<open>ys\<close> in this order.\<close>

fun path :: "int list \<Rightarrow> nat \<Rightarrow> nat list \<Rightarrow> bool" where
  "path nx x [] = True"
| "path nx x (y # ys) = (nx ! x = int y \<and> path nx y ys)"

section \<open>Notions for stating the properties of sweeping\<close>

text \<open>
  Modelled from the spec: a literal is twice its variable plus the complement bit
  (glossary), and a literal with complement bit 1 is the negation of its variable (the
  clause \<open>\<not>i \<or> \<not>t \<or> f\<close> of section 4.4 is the one built from the complement bits
  1, 1 and 0). Assuming a literal fixes its variable to the negation of the complement
  bit: \<open>assumed_value\<close> gives the variable and the value.
\<close>

definition assumed_value :: "int \<Rightarrow> int \<times> bool" where
  "assumed_value l = (l div 2, even l)"

text \<open>The arguments of the call of \<^verbatim>\<open>Cec2_ManSolveTwo\<close> that \<^verbatim>\<open>Cec2_ManSweepNode\<close> makes.\<close>

definition sweep_args :: "cec2_man \<Rightarrow> nat \<Rightarrow> nat \<times> nat \<times> bool" where
  "sweep_args m iObj =
     (let pObj = objs (pAig m) ! iObj;
          pRepr = objs (pAig m) ! iRepr (pReprs (pAig m) ! iObj)
      in (Abc_Lit2Var (Value pRepr), Abc_Lit2Var (Value pObj),
          (((Abc_LitIsCompl (Value pObj) \<noteq> Abc_LitIsCompl (Value pRepr))
              \<noteq> fPhase pObj) \<noteq> fPhase pRepr)))"

text \<open>The pattern counter of a manager is a column other than column 0.\<close>

definition pats_in_range :: "gia_man \<Rightarrow> bool" where
  "pats_in_range g \<longleftrightarrow> 1 \<le> iPatsPi g \<and> iPatsPi g < 64 * int (nSimWords g)"

section \<open>Concrete examples\<close>

definition mk_obj :: "gia_kind \<Rightarrow> bool \<Rightarrow> bool \<Rightarrow> nat \<Rightarrow> gia_obj" where
  "mk_obj k mark0 phase val = \<lparr> kind = k, fMark0 = mark0, fMark1 = False, fPhase = phase, Value = val \<rparr>"

text \<open>
  A rebuilt AIG over the inputs \<open>s\<close>, \<open>x\<close>, \<open>y\<close> (objects 1, 2, 3): object 6 is the MUX
  \<open>ite(s, \<not>x, \<not>y)\<close> built from the ANDs 4 and 5, object 7 is the plain AND of \<open>x\<close> and \<open>y\<close>.
\<close>

definition mux_objs :: "gia_obj list" where
  "mux_objs =
     [mk_obj Const0 False False 0,
      mk_obj (Ci 0) False False 2,
      mk_obj (Ci 1) False False 4,
      mk_obj (Ci 2) False False 6,
      mk_obj (And 1 False 2 False) False False 8,
      mk_obj (And 1 True 3 False) False False 10,
      mk_obj (And 4 True 5 True) True True 12,
      mk_obj (And 2 False 3 False) False False 14]"

definition mux_new :: gia_man where
  "mux_new = gia_empty \<lparr> objs := mux_objs, vCis := [1, 2, 3], vCopies := [- 1, - 1, - 1, - 1, - 1, - 1, - 1, - 1] \<rparr>"

text \<open>The user's AIG of the example: the same objects, object 7 a candidate of the class of 6.\<close>

definition rpr_void :: gia_rpr where
  "rpr_void = \<lparr> iRepr = GIA_VOID, fProved = False, fFailed = False \<rparr>"

definition mux_aig :: gia_man where
  "mux_aig = gia_empty \<lparr> objs := mux_objs, vCis := [1, 2, 3],
     pReprs := [rpr_void, rpr_void, rpr_void, rpr_void, rpr_void, rpr_void, rpr_void,
                \<lparr> iRepr = 6, fProved = False, fFailed = False \<rparr>],
     pNexts := [- 1, - 1, - 1, - 1, - 1, - 1, 7, - 1],
     nSimWords := 1, iPatsPi := 1, vSims := [0, 0, 0, 0, 0, 0, 0, 0] \<rparr>"

definition mux_man :: cec2_man where
  "mux_man = \<lparr> pPars = Cec2_SetDefaultParams, pAig = mux_aig, pNew = mux_new,
      pSat = satoko_create, vFrontier = [], vFanins = [], vNodesNew = [], vObjSatPairs = [],
      vCexTriples = [] \<rparr>"

text \<open>
  External collaborators of the example: the MUX inputs of object 6, and a solver with
  one fixed answer that accepts every clause.
\<close>

definition mux_ext :: "sat_status \<Rightarrow> externals" where
  "mux_ext st = \<lparr> Gia_ObjRecognizeMux = (\<lambda>os n. (1, (2, True), (3, True))),
                  solver_answer = (\<lambda>cls as. (st, [False, True, False, False, False])),
                  add_clause_status = (\<lambda>s c. True) \<rparr>"

text \<open>A miter with one input and one output that is the complement of the input.\<close>

definition miter_example :: gia_man where
  "miter_example = gia_empty \<lparr> objs :=
       [mk_obj Const0 False False 0, mk_obj (Ci 0) False False 0, mk_obj (Co 1 True) False False 0],
     vCis := [1], vCos := [2] \<rparr>"

definition miter_pars :: cec2_par where
  "miter_pars = Cec2_SetDefaultParams \<lparr> fIsMiter := True \<rparr>"

text \<open>The number of clauses a call adds to the solver.\<close>

definition clauses_added :: "satoko \<Rightarrow> cec_error + satoko \<Rightarrow> nat option" where
  "clauses_added s r = (case r of Inl e \<Rightarrow> None | Inr t \<Rightarrow> Some (length (clauses t) - length (clauses s)))"

text \<open>The rebuilt AIG of the example with SAT variables on the objects 6, 1, 2, 3 and 7.\<close>

definition mux_new_vars :: gia_man where
  "mux_new_vars = mux_new \<lparr> vCopies := [- 1, 1, 2, 3, - 1, - 1, 0, 4] \<rparr>"

text \<open>The miter example with a simulation store of one word per object.\<close>

definition cis_example :: gia_man where
  "cis_example = Cec2_ManSimAlloc miter_example 1"

text \<open>
  A class with head 1 and members 2 to 6, one simulation word per object: the objects 2
  and 6 have the word of the head, object 4 has its complement, the objects 3 and 5
  have a word that is neither.
\<close>

definition class_example :: gia_man where
  "class_example = gia_empty \<lparr>
     pReprs := [\<lparr> iRepr = GIA_VOID, fProved = False, fFailed = False \<rparr>,
                \<lparr> iRepr = GIA_VOID, fProved = False, fFailed = False \<rparr>,
                \<lparr> iRepr = 1, fProved = False, fFailed = False \<rparr>,
                \<lparr> iRepr = 1, fProved = False, fFailed = False \<rparr>,
                \<lparr> iRepr = 1, fProved = False, fFailed = False \<rparr>,
                \<lparr> iRepr = 1, fProved = False, fFailed = False \<rparr>,
                \<lparr> iRepr = 1, fProved = False, fFailed = False \<rparr>],
     pNexts := [0, 2, 3, 4, 5, 6, - 1],
     nSimWords := 1,
     vSims := [0, 5, 5, 6, NOT 5, 6, 5] \<rparr>"

lemmas ex_defs = rpr_void_def mux_man_def mux_new_def mux_aig_def mux_objs_def mk_obj_def
  mux_ext_def gia_empty_def satoko_create_def Cec2_SetDefaultParams_def miter_example_def
  miter_pars_def mux_new_vars_def

lemmas sat_defs = satoko_add_variable_def satoko_add_clause_def satoko_assump_push_def
  satoko_assump_pop_def satoko_solve_def satoko_rollback_def solve_under_def Abc_Var2Lit_def

lemmas cnf_defs = Cec2_ObjSatId_def Cec2_ObjSetSatId_def Cec2_ObjCleanSatId_def Gia_ObjIsCi_def
  Gia_ObjIsAnd_def Gia_ObjIsConst0_def Gia_ObjFanin0_def Gia_ObjFanin1_def
  Cec2_AddClausesMux_def Cec2_AddClausesSuper_def Vec_PtrPushUnique_def
  int32_def
  Cec2_CollectSuper_rec.simps Cec2_CollectSuper_def Cec2_ObjAddToFrontier_def mux_fanins_def
  frontier_step_def frontier_loop.simps Cec2_ObjGetCnfVar_def Let_def

lemmas solve_defs = Gia_ManIncrementTravId_def Gia_ObjSetTravIdCurrentId_def Gia_ManCiIdToId_def
  Cec2_ManCollect_rec.simps two_queries_def cnf_vars_def Cec2_ManSolveTwo_def

lemmas sweep_defs = Cec2_ManSweepNode_def sweep_branches_def sweep_finish_def Abc_Lit2Var_def Abc_LitIsCompl_def
  Abc_LitNotCond_def GIA_VOID_def Gia_ObjSetProved_def Gia_ObjSetFailed_def int32_def
  Cec2_ObjSimSetInputBit_def Abc_InfoHasBit_def var_polarity_true_def Cec2_ObjSim_def
  sweep_args_def assumed_value_def

section \<open>Properties of the simulation test and of the hash\<close>

lemma words_same_from_iff:
  "words_same_from w n a b \<longleftrightarrow> (\<forall>k. w \<le> k \<and> k < n \<longrightarrow> a ! k = b ! k)"
proof (induction w n a b rule: words_same_from.induct)
  case (1 w n a b)
  show ?case
  proof (cases "w < n")
    case False
    then show ?thesis by (subst words_same_from.simps) auto
  next
    case True
    show ?thesis
    proof (cases "a ! w = b ! w")
      case False
      have "words_same_from w n a b = False"
        using True False by (subst words_same_from.simps) simp
      moreover have "\<not> (\<forall>k. w \<le> k \<and> k < n \<longrightarrow> a ! k = b ! k)"
        using True False by blast
      ultimately show ?thesis by simp
    next
      case same: True
      have unfold: "words_same_from w n a b = words_same_from (w + 1) n a b"
        using True same by (subst words_same_from.simps) simp
      have "(\<forall>k. w \<le> k \<and> k < n \<longrightarrow> a ! k = b ! k) \<longleftrightarrow>
            (\<forall>k. Suc w \<le> k \<and> k < n \<longrightarrow> a ! k = b ! k)"
      proof (intro iffI allI impI)
        fix k assume h: "\<forall>k. Suc w \<le> k \<and> k < n \<longrightarrow> a ! k = b ! k" and k: "w \<le> k \<and> k < n"
        show "a ! k = b ! k"
        proof (cases "k = w")
          case True
          then show ?thesis using same by simp
        next
          case False
          then have "Suc w \<le> k" using k by simp
          then show ?thesis using h k by blast
        qed
      qed simp
      with True same "1.IH" unfold show ?thesis by simp
    qed
  qed
qed

lemma words_compl_from_iff:
  "words_compl_from w n a b \<longleftrightarrow> (\<forall>k. w \<le> k \<and> k < n \<longrightarrow> a ! k = NOT (b ! k))"
proof (induction w n a b rule: words_compl_from.induct)
  case (1 w n a b)
  show ?case
  proof (cases "w < n")
    case False
    then show ?thesis by (subst words_compl_from.simps) auto
  next
    case True
    show ?thesis
    proof (cases "a ! w = NOT (b ! w)")
      case False
      have "words_compl_from w n a b = False"
        using True False by (subst words_compl_from.simps) simp
      moreover have "\<not> (\<forall>k. w \<le> k \<and> k < n \<longrightarrow> a ! k = NOT (b ! k))"
        using True False by blast
      ultimately show ?thesis by simp
    next
      case same: True
      have unfold: "words_compl_from w n a b = words_compl_from (w + 1) n a b"
        using True same by (subst words_compl_from.simps) simp
      have "(\<forall>k. w \<le> k \<and> k < n \<longrightarrow> a ! k = NOT (b ! k)) \<longleftrightarrow>
            (\<forall>k. Suc w \<le> k \<and> k < n \<longrightarrow> a ! k = NOT (b ! k))"
      proof (intro iffI allI impI)
        fix k assume h: "\<forall>k. Suc w \<le> k \<and> k < n \<longrightarrow> a ! k = NOT (b ! k)" and k: "w \<le> k \<and> k < n"
        show "a ! k = NOT (b ! k)"
        proof (cases "k = w")
          case True
          then show ?thesis using same by simp
        next
          case False
          then have "Suc w \<le> k" using k by simp
          then show ?thesis using h k by blast
        qed
      qed simp
      with True same "1.IH" unfold show ?thesis by simp
    qed
  qed
qed

lemma sim_vec_length: "length (sim_vec p i) = nSimWords p"
  by (simp add: sim_vec_def)

lemma sim_vec_nth:
  "nSimWords p * Suc i \<le> length (vSims p) \<Longrightarrow> k < nSimWords p \<Longrightarrow>
   sim_vec p i ! k = Cec2_ObjSim p i ! k"
  by (simp add: sim_vec_def Cec2_ObjSim_def)

lemma sim_vec_eq_iff:
  assumes "nSimWords p * Suc i \<le> length (vSims p)"
      and "nSimWords p * Suc j \<le> length (vSims p)"
  shows "sim_vec p i = sim_vec p j \<longleftrightarrow>
         (\<forall>k < nSimWords p. Cec2_ObjSim p i ! k = Cec2_ObjSim p j ! k)"
  using assms by (simp add: list_eq_iff_nth_eq sim_vec_length sim_vec_nth)

lemma sim_vec_compl_iff:
  assumes "nSimWords p * Suc i \<le> length (vSims p)"
      and "nSimWords p * Suc j \<le> length (vSims p)"
  shows "sim_vec p i = map NOT (sim_vec p j) \<longleftrightarrow>
         (\<forall>k < nSimWords p. Cec2_ObjSim p i ! k = NOT (Cec2_ObjSim p j ! k))"
  using assms by (simp add: list_eq_iff_nth_eq sim_vec_length sim_vec_nth)

lemma lsb_differs_NOT: "(NOT (x :: 64 word)) AND 1 \<noteq> x AND 1"
  by (simp add: and_one_eq mod_2_eq_odd)

text \<open>
  Claim C3. For two nodes inside the store, \<^verbatim>\<open>Cec2_ObjSimEqual\<close> returns true exactly when
  their simulation vectors, the \<open>W\<close> words of each in \<^verbatim>\<open>vSims\<close>, are equal or bitwise
  complementary; which of the two is tested is chosen by the least-significant bits of
  their words 0: equality when the bits agree, complementarity when they differ.
\<close>

theorem Cec2_ObjSimEqual_equal_or_complement:
  assumes "0 < nSimWords p"
      and "nSimWords p * Suc i \<le> length (vSims p)"
      and "nSimWords p * Suc j \<le> length (vSims p)"
  shows "(Cec2_ObjSimEqual p i j \<longleftrightarrow>
            (if (sim_vec p i ! 0) AND 1 = (sim_vec p j ! 0) AND 1
             then sim_vec p i = sim_vec p j
             else sim_vec p i = map NOT (sim_vec p j)))
       \<and> (Cec2_ObjSimEqual p i j \<longleftrightarrow>
            (sim_vec p i = sim_vec p j \<or> sim_vec p i = map NOT (sim_vec p j)))"
proof -
  let ?a = "Cec2_ObjSim p i" and ?b = "Cec2_ObjSim p j"
  have nth0: "sim_vec p i ! 0 = ?a ! 0" "sim_vec p j ! 0 = ?b ! 0"
    using assms by (simp_all add: sim_vec_nth)
  have first: "Cec2_ObjSimEqual p i j \<longleftrightarrow>
      (if (sim_vec p i ! 0) AND 1 = (sim_vec p j ! 0) AND 1
       then sim_vec p i = sim_vec p j
       else sim_vec p i = map NOT (sim_vec p j))"
    unfolding nth0
    by (simp add: Cec2_ObjSimEqual_def Let_def words_same_from_iff words_compl_from_iff
        sim_vec_eq_iff [OF assms(2,3)] sim_vec_compl_iff [OF assms(2,3)])
  have agree: "sim_vec p i = sim_vec p j \<Longrightarrow> (?a ! 0) AND 1 = (?b ! 0) AND 1"
    using nth0 by simp
  have differ: "sim_vec p i = map NOT (sim_vec p j) \<Longrightarrow> (?a ! 0) AND 1 \<noteq> (?b ! 0) AND 1"
  proof -
    assume eq: "sim_vec p i = map NOT (sim_vec p j)"
    have "sim_vec p i ! 0 = NOT (sim_vec p j ! 0)"
      using eq assms(1) sim_vec_length [of p j] by simp
    then show ?thesis
      using nth0 lsb_differs_NOT [of "?b ! 0"] by simp
  qed
  have second: "Cec2_ObjSimEqual p i j \<longleftrightarrow>
      (sim_vec p i = sim_vec p j \<or> sim_vec p i = map NOT (sim_vec p j))"
    using first agree differ unfolding nth0 by (auto split: if_splits)
  from first second show ?thesis by simp
qed

theorem Cec2_ObjSimEqual_equal_or_complement_witness:
  "0 < nSimWords sim_example
   \<and> nSimWords sim_example * Suc 0 \<le> length (vSims sim_example)
   \<and> nSimWords sim_example * Suc 1 \<le> length (vSims sim_example)
   \<and> nSimWords sim_example * Suc 2 \<le> length (vSims sim_example)
   \<and> sim_vec sim_example 0 = [5] \<and> sim_vec sim_example 1 = [NOT 5] \<and> sim_vec sim_example 2 = [7]
   \<and> Cec2_ObjSimEqual sim_example 0 1
   \<and> \<not> Cec2_ObjSimEqual sim_example 0 2"
proof -
  have h1: "0 < nSimWords sim_example"
    by (simp add: sim_example_def gia_empty_def)
  have h2: "nSimWords sim_example * Suc 0 \<le> length (vSims sim_example)"
    by (simp add: sim_example_def gia_empty_def)
  have h3: "nSimWords sim_example * Suc 1 \<le> length (vSims sim_example)"
    by (simp add: sim_example_def gia_empty_def)
  have h4: "nSimWords sim_example * Suc 2 \<le> length (vSims sim_example)"
    by (simp add: sim_example_def gia_empty_def)
  have v: "sim_vec sim_example 0 = [5]" "sim_vec sim_example 1 = [NOT 5]"
    "sim_vec sim_example 2 = [7]"
    by (simp_all add: sim_vec_def sim_example_def gia_empty_def)
  from Cec2_ObjSimEqual_equal_or_complement [OF h1 h2 h3, THEN conjunct2] v
  have e1: "Cec2_ObjSimEqual sim_example 0 1" by simp
  from Cec2_ObjSimEqual_equal_or_complement [OF h1 h2 h4, THEN conjunct2] v
  have e2: "\<not> Cec2_ObjSimEqual sim_example 0 2" by simp
  from h1 h2 h3 h4 v e1 e2 show ?thesis by simp
qed

lemma ucast_NOT_low: "(ucast (NOT (w :: 64 word)) :: 32 word) = NOT (ucast w)"
  by (rule bit_word_eqI) (auto simp: bit_simps)

lemma ucast_NOT_high:
  "(ucast (drop_bit 32 (NOT (w :: 64 word))) :: 32 word) = NOT (ucast (drop_bit 32 w))"
  by (rule bit_word_eqI) (auto simp: bit_simps)

lemma as_unsigned_NOT: "as_unsigned (map NOT ws) = map NOT (as_unsigned ws)"
  by (induction ws) (simp_all add: as_unsigned_def ucast_NOT_low ucast_NOT_high)

lemma length_as_unsigned: "length (as_unsigned ws) = 2 * length ws"
  by (induction ws) (simp_all add: as_unsigned_def)

lemma lsb32_NOT: "((NOT (x :: 32 word)) AND 1 \<noteq> 0) = (x AND 1 = 0)"
  by (simp add: and_one_eq mod_2_eq_odd)

lemma fold_cong_upt:
  "(\<And>i. i < n \<Longrightarrow> f i = g i) \<Longrightarrow> fold f [0..<n] a = fold g [0..<n] a"
  by (rule fold_cong) auto

text \<open>
  Claim C10. The hash key of a simulation vector of \<open>nSims\<close> words is the hash key of
  its bitwise complement, for every table size (a positive one gives a key, a zero one
  gives no result for both).
\<close>

theorem Cec2_ManSimHashKey_complement:
  assumes "length pSim = nSims"
  shows "Cec2_ManSimHashKey (map NOT pSim) nSims nTableSize
       = Cec2_ManSimHashKey pSim nSims nTableSize"
proof (cases "nSims = 0")
  case True
  then show ?thesis using assms by (simp add: Cec2_ManSimHashKey_def Let_def as_unsigned_def)
next
  case False
  let ?u = "as_unsigned pSim"
  have len: "length ?u = 2 * nSims"
    using assms by (simp add: length_as_unsigned)
  have nth: "\<And>i. i < 2 * nSims \<Longrightarrow> map NOT ?u ! i = NOT (?u ! i)"
    using len by simp
  have nth0: "map NOT ?u ! 0 = NOT (?u ! 0)"
    using False nth [of 0] by simp
  have f1: "fold (\<lambda>i h. h XOR NOT (map NOT ?u ! i) * s_Primes ! (i AND 15)) [0..<2 * nSims] 0
          = fold (\<lambda>i h. h XOR (?u ! i) * s_Primes ! (i AND 15)) [0..<2 * nSims] (0 :: 32 word)"
    by (rule fold_cong_upt) (simp add: nth)
  have f2: "fold (\<lambda>i h. h XOR (map NOT ?u ! i) * s_Primes ! (i AND 15)) [0..<2 * nSims] 0
          = fold (\<lambda>i h. h XOR NOT (?u ! i) * s_Primes ! (i AND 15)) [0..<2 * nSims] (0 :: 32 word)"
    by (rule fold_cong_upt) (simp add: nth)
  show ?thesis
  proof (cases "(?u ! 0) AND 1 = 0")
    case True
    then show ?thesis
      by (simp add: Cec2_ManSimHashKey_def Let_def as_unsigned_NOT nth0 lsb32_NOT f1 del: upt_Suc)
  next
    case False
    then show ?thesis
      by (simp add: Cec2_ManSimHashKey_def Let_def as_unsigned_NOT nth0 lsb32_NOT f2 del: upt_Suc)
  qed
qed

theorem Cec2_ManSimHashKey_complement_witness:
  "length [5, 3 :: 64 word] = 2
   \<and> Cec2_ManSimHashKey (map NOT [5, 3]) 2 7 = Some 5
   \<and> Cec2_ManSimHashKey [5, 3] 2 7 = Some 5"
proof -
  have len: "length [5, 3 :: 64 word] = 2" by simp
  have val: "Cec2_ManSimHashKey [5, 3] 2 7 = Some 5" by code_simp
  from Cec2_ManSimHashKey_complement [OF len, of 7] val len show ?thesis by simp
qed

section \<open>The miter shortcut\<close>

lemma first_phase_co_Some:
  "first_phase_co p cos k = Some i \<Longrightarrow>
   k \<le> i \<and> i - k < length cos \<and> fPhase (objs p ! (cos ! (i - k)))
   \<and> (\<forall>j < i - k. \<not> fPhase (objs p ! (cos ! j)))"
proof (induction cos arbitrary: k)
  case Nil
  then show ?case by simp
next
  case (Cons c cos)
  show ?case
  proof (cases "fPhase (objs p ! c)")
    case True
    with Cons.prems show ?thesis by simp
  next
    case False
    with Cons.prems have rec: "first_phase_co p cos (k + 1) = Some i" by simp
    from Cons.IH [OF rec] have ih: "k + 1 \<le> i" "i - (k + 1) < length cos"
      "fPhase (objs p ! (cos ! (i - (k + 1))))"
      "\<forall>j < i - (k + 1). \<not> fPhase (objs p ! (cos ! j))" by auto
    have "i - k = Suc (i - (k + 1))" using ih(1) by simp
    with ih False show ?thesis by (auto simp: nth_Cons split: nat.splits)
  qed
qed

lemma first_phase_co_exists:
  "\<exists>j < length cos. fPhase (objs p ! (cos ! j)) \<Longrightarrow> \<exists>i. first_phase_co p cos k = Some i"
proof (induction cos arbitrary: k)
  case Nil
  then show ?case by simp
next
  case (Cons c cos)
  show ?case
  proof (cases "fPhase (objs p ! c)")
    case True
    then show ?thesis by simp
  next
    case False
    from Cons.prems obtain j where j: "j < Suc (length cos)" "fPhase (objs p ! ((c # cos) ! j))"
      by auto
    with False obtain j' where "j = Suc j'" by (cases j) auto
    with j have "\<exists>j < length cos. fPhase (objs p ! (cos ! j))" by auto
    from Cons.IH [OF this] False show ?thesis by simp
  qed
qed

lemma Gia_ManSetPhase_frame:
  "vCos (Gia_ManSetPhase p) = vCos p" "vCis (Gia_ManSetPhase p) = vCis p"
  "vSims (Gia_ManSetPhase p) = vSims p" "nSimWords (Gia_ManSetPhase p) = nSimWords p"
  "iPatsPi (Gia_ManSetPhase p) = iPatsPi p"
  by (simp_all add: Gia_ManSetPhase_def)

text \<open>
  Claim C6. In miter mode, when some output has phase 1 after the phases are set,
  \<^verbatim>\<open>Cec2_ManPerformSweeping\<close> returns 0 whatever the rest of the engine would do, the
  counter-example names the first such output and assigns 0 to every input, and the
  simulation store is untouched.
\<close>

theorem Cec2_ManPerformSweeping_miter_shortcut:
  assumes "fIsMiter pars"
      and "\<exists>j < length (vCos p). fPhase (objs (Gia_ManSetPhase p) ! (vCos p ! j))"
  shows "\<exists>i p'. Cec2_ManPerformSweeping rest p pars = Inr (0, p')
           \<and> i < length (vCos p)
           \<and> fPhase (objs (Gia_ManSetPhase p) ! (vCos p ! i))
           \<and> (\<forall>j < i. \<not> fPhase (objs (Gia_ManSetPhase p) ! (vCos p ! j)))
           \<and> pCexSeq p' = Some \<lparr> iPo = int i, nPis = length (vCis p),
                                  pData = replicate (length (vCis p)) False \<rparr>
           \<and> vSims p' = vSims p \<and> nSimWords p' = nSimWords p \<and> iPatsPi p' = iPatsPi p"
proof -
  let ?p1 = "Gia_ManSetPhase p"
  from assms(2) have "\<exists>j < length (vCos ?p1). fPhase (objs ?p1 ! (vCos ?p1 ! j))"
    by (simp add: Gia_ManSetPhase_frame)
  from first_phase_co_exists [OF this, of 0] obtain i where
    i: "first_phase_co ?p1 (vCos ?p1) 0 = Some i" by blast
  from first_phase_co_Some [OF i] have props: "i < length (vCos p)"
    "fPhase (objs ?p1 ! (vCos p ! i))" "\<forall>j < i. \<not> fPhase (objs ?p1 ! (vCos p ! j))"
    by (simp_all add: Gia_ManSetPhase_frame)
  let ?p' = "?p1 \<lparr> pCexSeq := Some (Cec2_ManDeriveCex ?p1 (int i) (- 1)) \<rparr>"
  have run: "Cec2_ManPerformSweeping rest p pars = Inr (0, ?p')"
    using assms(1) i by (simp add: Cec2_ManPerformSweeping_def Let_def)
  have cex: "pCexSeq ?p' = Some \<lparr> iPo = int i, nPis = length (vCis p),
                                  pData = replicate (length (vCis p)) False \<rparr>"
    by (simp add: Cec2_ManDeriveCex_def Abc_CexAlloc_def Gia_ManSetPhase_frame)
  have frame: "vSims ?p' = vSims p" "nSimWords ?p' = nSimWords p" "iPatsPi ?p' = iPatsPi p"
    by (simp_all add: Gia_ManSetPhase_frame)
  from run props cex frame show ?thesis by blast
qed

theorem Cec2_ManPerformSweeping_miter_shortcut_witness:
  "fIsMiter miter_pars
   \<and> fPhase (objs (Gia_ManSetPhase miter_example) ! (vCos miter_example ! 0))
   \<and> (case Cec2_ManPerformSweeping (\<lambda>p q. Inl BadAccess) miter_example miter_pars of
         Inl e \<Rightarrow> False
       | Inr (r, p') \<Rightarrow> r = 0 \<and> pCexSeq p' = Some \<lparr> iPo = 0, nPis = 1, pData = [False] \<rparr>)"
proof -
  have h1: "fIsMiter miter_pars" by (simp add: ex_defs)
  have h2: "fPhase (objs (Gia_ManSetPhase miter_example) ! (vCos miter_example ! 0))"
    by (simp add: ex_defs Gia_ManSetPhase_def Gia_ObjSetPhase_def upt_rec)
  have h3: "\<exists>j < length (vCos miter_example).
              fPhase (objs (Gia_ManSetPhase miter_example) ! (vCos miter_example ! j))"
    using h2 by (intro exI [of _ 0]) (simp add: ex_defs)
  from Cec2_ManPerformSweeping_miter_shortcut [OF h1 h3, of "\<lambda>p q. Inl BadAccess"]
  obtain i p' where
    run: "Cec2_ManPerformSweeping (\<lambda>p q. Inl BadAccess) miter_example miter_pars = Inr (0, p')" and
    i: "i < length (vCos miter_example)" and
    cex: "pCexSeq p' = Some \<lparr> iPo = int i, nPis = length (vCis miter_example),
                              pData = replicate (length (vCis miter_example)) False \<rparr>"
    by blast
  from i have "i = 0" by (simp add: ex_defs)
  with cex have "pCexSeq p' = Some \<lparr> iPo = 0, nPis = 1, pData = [False] \<rparr>"
    by (simp add: ex_defs)
  with run h1 h2 show ?thesis by simp
qed

section \<open>Engine construction accepts every parameter\<close>

text \<open>
  Claim C9 (amended). Engine construction validates nothing: \<^verbatim>\<open>Cec2_ManCreate\<close> returns a
  manager holding the parameters it was given, whatever they are, and
  \<^verbatim>\<open>Cec2_ManSimAlloc\<close> records the word count it was given and allocates that many
  words per object, also when the count is 0.
\<close>

theorem Cec2_ManCreate_accepts_all_parameters:
  "(\<exists>m. Cec2_ManCreate a pars = Inr m \<and> pPars m = pars \<and> nVars (pSat m) = 0)
   \<and> nSimWords (Cec2_ManSimAlloc p nWords) = nWords
   \<and> vSims (Cec2_ManSimAlloc p nWords) = replicate (length (objs p) * nWords) 0"
  by (simp add: Cec2_ManCreate_def Cec2_ManSimAlloc_def Let_def satoko_create_def
      split: prod.splits)

theorem Cec2_ManCreate_zero_words_counterexample:
  "Cec2_ManCreate miter_example (Cec2_SetDefaultParams \<lparr> nSimWords_par := 0 \<rparr>) \<noteq> Inl ConfigInvalid
   \<and> nSimWords (Cec2_ManSimAlloc miter_example 0) = 0
   \<and> vSims (Cec2_ManSimAlloc miter_example 0) = []"
  by (simp add: Cec2_ManCreate_def Cec2_ManSimAlloc_def Let_def split: prod.splits)

section \<open>Clause counts of the CNF builder\<close>

lemma all_less_Suc_iff: "(\<forall>i < Suc n. P i) \<longleftrightarrow> P 0 \<and> (\<forall>i < n. P (Suc i))"
  by (metis less_Suc_eq_0_disj Suc_less_eq zero_less_Suc)

lemma Cec2_AddClausesMux_Inr:
  assumes "Cec2_AddClausesMux E p n s = Inr s'"
  shows "fMark0 (objs p ! n)
       \<and> (\<exists>cs. s' = s \<lparr> clauses := clauses s @ cs \<rparr>
            \<and> length cs =
                (if Cec2_ObjSatId p (fst (fst (snd (Gia_ObjRecognizeMux E (objs p) n))))
                    = Cec2_ObjSatId p (fst (snd (snd (Gia_ObjRecognizeMux E (objs p) n))))
                 then 4 else 6)
            \<and> (\<forall>i < length cs.
                  add_clause_status E (s \<lparr> clauses := clauses s @ take i cs \<rparr>) (cs ! i)))"
proof -
  obtain pI pT pE where r: "Gia_ObjRecognizeMux E (objs p) n = (pI, pT, pE)"
    by (cases "Gia_ObjRecognizeMux E (objs p) n")
  from assms have mark: "fMark0 (objs p ! n)"
    by (simp add: Cec2_AddClausesMux_def split: if_splits)
  define k1 where "k1 = [Abc_Var2Lit (Cec2_ObjSatId p pI) True, Abc_Var2Lit (Cec2_ObjSatId p (fst pT)) (\<not> snd pT),
            Abc_Var2Lit (Cec2_ObjSatId p n) False]"
  define k2 where "k2 = [Abc_Var2Lit (Cec2_ObjSatId p pI) True, Abc_Var2Lit (Cec2_ObjSatId p (fst pT)) (snd pT),
            Abc_Var2Lit (Cec2_ObjSatId p n) True]"
  define k3 where "k3 = [Abc_Var2Lit (Cec2_ObjSatId p pI) False, Abc_Var2Lit (Cec2_ObjSatId p (fst pE)) (\<not> snd pE),
            Abc_Var2Lit (Cec2_ObjSatId p n) False]"
  define k4 where "k4 = [Abc_Var2Lit (Cec2_ObjSatId p pI) False, Abc_Var2Lit (Cec2_ObjSatId p (fst pE)) (snd pE),
            Abc_Var2Lit (Cec2_ObjSatId p n) True]"
  define k5 where "k5 = [Abc_Var2Lit (Cec2_ObjSatId p (fst pT)) (snd pT), Abc_Var2Lit (Cec2_ObjSatId p (fst pE)) (snd pE),
            Abc_Var2Lit (Cec2_ObjSatId p n) True]"
  define k6 where "k6 = [Abc_Var2Lit (Cec2_ObjSatId p (fst pT)) (\<not> snd pT),
            Abc_Var2Lit (Cec2_ObjSatId p (fst pE)) (\<not> snd pE),
            Abc_Var2Lit (Cec2_ObjSatId p n) False]"
  note run = assms [unfolded Cec2_AddClausesMux_def Let_def r prod.case fst_conv snd_conv,
      folded k1_def k2_def k3_def k4_def k5_def k6_def]
  from run mark have a4:
    "add_clause_status E s k1"
    "add_clause_status E (s \<lparr> clauses := clauses s @ [k1] \<rparr>) k2"
    "add_clause_status E (s \<lparr> clauses := clauses s @ [k1, k2] \<rparr>) k3"
    "add_clause_status E (s \<lparr> clauses := clauses s @ [k1, k2, k3] \<rparr>) k4"
    by (simp_all add: satoko_add_clause_def split: if_splits)
  show ?thesis
  proof (cases "Cec2_ObjSatId p (fst pT) = Cec2_ObjSatId p (fst pE)")
    case True
    from run mark True have s': "s' = s \<lparr> clauses := clauses s @ [k1, k2, k3, k4] \<rparr>"
      by (simp add: satoko_add_clause_def split: if_splits)
    have "\<forall>i < length [k1, k2, k3, k4].
            add_clause_status E (s \<lparr> clauses := clauses s @ take i [k1, k2, k3, k4] \<rparr>) ([k1, k2, k3, k4] ! i)"
      using a4 by (simp add: all_less_Suc_iff)
    with s' r True mark show ?thesis
      by (intro conjI exI [of _ "[k1, k2, k3, k4]"]) simp_all
  next
    case False
    from run mark False have s': "s' = s \<lparr> clauses := clauses s @ [k1, k2, k3, k4, k5, k6] \<rparr>"
      and a6: "add_clause_status E (s \<lparr> clauses := clauses s @ [k1, k2, k3, k4] \<rparr>) k5"
        "add_clause_status E (s \<lparr> clauses := clauses s @ [k1, k2, k3, k4, k5] \<rparr>) k6"
      by (simp_all add: satoko_add_clause_def split: if_splits)
    have "\<forall>i < length [k1, k2, k3, k4, k5, k6].
            add_clause_status E (s \<lparr> clauses := clauses s @ take i [k1, k2, k3, k4, k5, k6] \<rparr>)
              ([k1, k2, k3, k4, k5, k6] ! i)"
      using a4 a6 by (simp add: all_less_Suc_iff)
    with s' r False mark show ?thesis
      by (intro conjI exI [of _ "[k1, k2, k3, k4, k5, k6]"]) simp_all
  qed
qed

lemma Cec2_AddClausesMux_Inl:
  assumes "Cec2_AddClausesMux E p n s = Inl e"
  shows "e \<in> AssertFailed ` {109, 139, 150, 161, 172, 197, 208}"
proof -
  obtain pI pT pE where r: "Gia_ObjRecognizeMux E (objs p) n = (pI, pT, pE)"
    by (cases "Gia_ObjRecognizeMux E (objs p) n")
  from assms r show ?thesis
    by (simp add: Cec2_AddClausesMux_def Let_def satoko_add_clause_def split: if_splits)
qed

lemma Cec2_AddClausesMux_accepted:
  assumes "fMark0 (objs p ! n)" and "\<forall>t c. add_clause_status E t c"
  shows "\<exists>s'. Cec2_AddClausesMux E p n s = Inr s'"
proof -
  obtain pI pT pE where r: "Gia_ObjRecognizeMux E (objs p) n = (pI, pT, pE)"
    by (cases "Gia_ObjRecognizeMux E (objs p) n")
  from assms r show ?thesis
    by (simp add: Cec2_AddClausesMux_def Let_def satoko_add_clause_def)
qed

lemma add_leaf_clauses_Inr:
  "add_leaf_clauses E p n vs s = Inr s' \<Longrightarrow>
   s' = s \<lparr> clauses := clauses s @
          map (\<lambda>pFanin. [Abc_Var2Lit (Cec2_ObjSatId p (fst pFanin)) (snd pFanin),
                          Abc_Var2Lit (Cec2_ObjSatId p n) True]) vs \<rparr>"
proof (induction vs arbitrary: s)
  case Nil
  then show ?case by simp
next
  case (Cons v vs)
  let ?c = "[Abc_Var2Lit (Cec2_ObjSatId p (fst v)) (snd v), Abc_Var2Lit (Cec2_ObjSatId p n) True]"
  from Cons.prems have ok: "add_clause_status E s ?c"
    and rest: "add_leaf_clauses E p n vs (s \<lparr> clauses := clauses s @ [?c] \<rparr>) = Inr s'"
    by (simp_all add: satoko_add_clause_def split: if_splits)
  from Cons.IH [OF rest] show ?case by simp
qed

lemma add_leaf_clauses_accepted_each:
  "add_leaf_clauses E p n vs s = Inr s' \<Longrightarrow>
   (\<forall>i < length vs. add_clause_status E
       (s \<lparr> clauses := clauses s @ take i (map (\<lambda>pFanin. [Abc_Var2Lit (Cec2_ObjSatId p (fst pFanin)) (snd pFanin),
                          Abc_Var2Lit (Cec2_ObjSatId p n) True]) vs) \<rparr>)
       [Abc_Var2Lit (Cec2_ObjSatId p (fst (vs ! i))) (snd (vs ! i)), Abc_Var2Lit (Cec2_ObjSatId p n) True])"
proof (induction vs arbitrary: s)
  case Nil
  then show ?case by simp
next
  case (Cons v vs)
  let ?c = "[Abc_Var2Lit (Cec2_ObjSatId p (fst v)) (snd v), Abc_Var2Lit (Cec2_ObjSatId p n) True]"
  from Cons.prems have ok: "add_clause_status E s ?c"
    and rest: "add_leaf_clauses E p n vs (s \<lparr> clauses := clauses s @ [?c] \<rparr>) = Inr s'"
    by (simp_all add: satoko_add_clause_def split: if_splits)
  from Cons.IH [OF rest] ok show ?case
    by (simp add: all_less_Suc_iff)
qed

lemma add_leaf_clauses_Inl:
  "add_leaf_clauses E p n vs s = Inl e \<Longrightarrow> e = AssertFailed 232"
proof (induction vs arbitrary: s)
  case Nil
  then show ?case by simp
next
  case (Cons v vs)
  let ?c = "[Abc_Var2Lit (Cec2_ObjSatId p (fst v)) (snd v), Abc_Var2Lit (Cec2_ObjSatId p n) True]"
  show ?case
  proof (cases "add_clause_status E s ?c")
    case True
    with Cons.prems have "add_leaf_clauses E p n vs (s \<lparr> clauses := clauses s @ [?c] \<rparr>) = Inl e"
      by (simp add: satoko_add_clause_def)
    then show ?thesis by (rule Cons.IH)
  next
    case False
    with Cons.prems show ?thesis by (simp add: satoko_add_clause_def)
  qed
qed

lemma add_leaf_clauses_accepted:
  "\<forall>t c. add_clause_status E t c \<Longrightarrow> \<exists>s'. add_leaf_clauses E p n vs s = Inr s'"
  by (induction vs arbitrary: s) (simp_all add: satoko_add_clause_def)

lemma Cec2_AddClausesSuper_Inr:
  assumes "Cec2_AddClausesSuper E p n vs s = Inr s'"
  shows "Gia_ObjIsAnd p n
       \<and> s' = s \<lparr> clauses := clauses s @
            map (\<lambda>pFanin. [Abc_Var2Lit (Cec2_ObjSatId p (fst pFanin)) (snd pFanin),
                            Abc_Var2Lit (Cec2_ObjSatId p n) True]) vs
            @ [map (\<lambda>pFanin. Abc_Var2Lit (Cec2_ObjSatId p (fst pFanin)) (\<not> snd pFanin)) vs
               @ [Abc_Var2Lit (Cec2_ObjSatId p n) False]] \<rparr>"
proof -
  from assms have a: "Gia_ObjIsAnd p n"
    by (simp add: Cec2_AddClausesSuper_def split: if_splits)
  with assms obtain s1 where
    l: "add_leaf_clauses E p n vs s = Inr s1" and
    f: "satoko_add_clause E s1
          (map (\<lambda>pFanin. Abc_Var2Lit (Cec2_ObjSatId p (fst pFanin)) (\<not> snd pFanin)) vs
           @ [Abc_Var2Lit (Cec2_ObjSatId p n) False]) = (True, s')"
    by (auto simp: Cec2_AddClausesSuper_def Let_def split: sum.splits prod.splits if_splits)
  from f have "s' = s1 \<lparr> clauses := clauses s1 @
      [map (\<lambda>pFanin. Abc_Var2Lit (Cec2_ObjSatId p (fst pFanin)) (\<not> snd pFanin)) vs
       @ [Abc_Var2Lit (Cec2_ObjSatId p n) False]] \<rparr>"
    by (simp add: satoko_add_clause_def split: if_splits)
  with add_leaf_clauses_Inr [OF l] a show ?thesis by simp
qed

lemma Cec2_AddClausesSuper_each:
  assumes "Cec2_AddClausesSuper E p n vs s = Inr s'"
  shows "\<exists>cs c. s' = s \<lparr> clauses := clauses s @ cs @ [c] \<rparr>
           \<and> length cs = length vs \<and> (\<forall>b \<in> set cs. length b = 2)
           \<and> length c = length vs + 1
           \<and> (\<forall>i < length (cs @ [c]).
                 add_clause_status E (s \<lparr> clauses := clauses s @ take i (cs @ [c]) \<rparr>)
                   ((cs @ [c]) ! i))"
proof -
  let ?f = "\<lambda>pFanin. [Abc_Var2Lit (Cec2_ObjSatId p (fst pFanin)) (snd pFanin),
                        Abc_Var2Lit (Cec2_ObjSatId p n) True]"
  let ?c = "map (\<lambda>pFanin. Abc_Var2Lit (Cec2_ObjSatId p (fst pFanin)) (\<not> snd pFanin)) vs
            @ [Abc_Var2Lit (Cec2_ObjSatId p n) False]"
  from assms have a: "Gia_ObjIsAnd p n"
    by (simp add: Cec2_AddClausesSuper_def split: if_splits)
  with assms obtain s1 where
    l: "add_leaf_clauses E p n vs s = Inr s1" and
    f: "satoko_add_clause E s1 ?c = (True, s')"
    by (auto simp: Cec2_AddClausesSuper_def Let_def split: sum.splits prod.splits if_splits)
  note s1 = add_leaf_clauses_Inr [OF l]
  from f have last: "add_clause_status E s1 ?c"
    and s': "s' = s1 \<lparr> clauses := clauses s1 @ [?c] \<rparr>"
    by (simp_all add: satoko_add_clause_def split: if_splits)
  have each: "add_clause_status E (s \<lparr> clauses := clauses s @ take i (map ?f vs @ [?c]) \<rparr>)
                ((map ?f vs @ [?c]) ! i)"
    if i: "i < length (map ?f vs @ [?c])" for i
  proof (cases "i < length vs")
    case True
    with add_leaf_clauses_accepted_each [OF l] show ?thesis
      by (simp add: nth_append)
  next
    case False
    with i have "i = length vs" by simp
    with last s1 show ?thesis by (simp add: nth_append)
  qed
  have "s' = s \<lparr> clauses := clauses s @ map ?f vs @ [?c] \<rparr>"
    using s' s1 by simp
  moreover have "length (map ?f vs) = length vs" by simp
  moreover have "\<forall>b \<in> set (map ?f vs). length b = 2" by auto
  moreover have "length ?c = length vs + 1" by simp
  ultimately show ?thesis using each by blast
qed

lemma Cec2_AddClausesSuper_Inl:
  assumes "Cec2_AddClausesSuper E p n vs s = Inl e"
  shows "e \<in> AssertFailed ` {216, 232, 249}"
  using assms
  by (auto simp: Cec2_AddClausesSuper_def Let_def satoko_add_clause_def
      dest: add_leaf_clauses_Inl split: sum.splits if_splits)

lemma Cec2_AddClausesSuper_accepted:
  assumes "Gia_ObjIsAnd p n" and "\<forall>t c. add_clause_status E t c"
  shows "\<exists>s'. Cec2_AddClausesSuper E p n vs s = Inr s'"
proof -
  from add_leaf_clauses_accepted [OF assms(2)] obtain s1 where
    "add_leaf_clauses E p n vs s = Inr s1" by blast
  with assms show ?thesis
    by (simp add: Cec2_AddClausesSuper_def Let_def satoko_add_clause_def)
qed

text \<open>
  Claim C5 (amended). Whenever \<^verbatim>\<open>Cec2_AddClausesMux\<close> returns, it has added exactly 6
  clauses to the solver, or exactly 4 when the then and else inputs have the same SAT
  variable. Whenever \<^verbatim>\<open>Cec2_AddClausesSuper\<close> returns for a super-gate of \<open>k\<close> leaves, it
  has added exactly \<open>k + 1\<close> clauses: \<open>k\<close> clauses of two literals and one clause of
  \<open>k + 1\<close> literals. In both cases the solver accepted every one of these clauses when
  it was added. Both return for a node of their kind when the solver accepts every
  clause; otherwise the program stops at one of their assertions, a refused clause
  at \<^verbatim>\<open>assert( RetValue )\<close>.
\<close>

theorem Cec2_AddClauses_counts:
  "(\<forall>s'. Cec2_AddClausesMux E p n s = Inr s' \<longrightarrow>
      (\<exists>cs. s' = s \<lparr> clauses := clauses s @ cs \<rparr>
         \<and> length cs =
             (if Cec2_ObjSatId p (fst (fst (snd (Gia_ObjRecognizeMux E (objs p) n))))
                 = Cec2_ObjSatId p (fst (snd (snd (Gia_ObjRecognizeMux E (objs p) n))))
              then 4 else 6)
         \<and> (\<forall>i < length cs.
               add_clause_status E (s \<lparr> clauses := clauses s @ take i cs \<rparr>) (cs ! i))))
   \<and> (\<forall>s'. Cec2_AddClausesSuper E p k vSuper s = Inr s' \<longrightarrow>
      (\<exists>cs c. s' = s \<lparr> clauses := clauses s @ cs @ [c] \<rparr>
         \<and> length (cs @ [c]) = length vSuper + 1
         \<and> length cs = length vSuper \<and> (\<forall>b \<in> set cs. length b = 2)
         \<and> length c = length vSuper + 1
         \<and> (\<forall>i < length (cs @ [c]).
               add_clause_status E (s \<lparr> clauses := clauses s @ take i (cs @ [c]) \<rparr>)
                 ((cs @ [c]) ! i))))
   \<and> ((\<forall>t c. add_clause_status E t c) \<longrightarrow>
         (fMark0 (objs p ! n) \<longrightarrow> (\<exists>s'. Cec2_AddClausesMux E p n s = Inr s'))
       \<and> (Gia_ObjIsAnd p k \<longrightarrow> (\<exists>s'. Cec2_AddClausesSuper E p k vSuper s = Inr s')))
   \<and> (\<forall>e. Cec2_AddClausesMux E p n s = Inl e \<longrightarrow>
          e \<in> AssertFailed ` {109, 139, 150, 161, 172, 197, 208})
   \<and> (\<forall>e. Cec2_AddClausesSuper E p k vSuper s = Inl e \<longrightarrow>
          e \<in> AssertFailed ` {216, 232, 249})"
proof (intro conjI allI impI)
  fix s' assume "Cec2_AddClausesMux E p n s = Inr s'"
  from Cec2_AddClausesMux_Inr [OF this, THEN conjunct2]
  show "\<exists>cs. s' = s \<lparr> clauses := clauses s @ cs \<rparr>
         \<and> length cs =
             (if Cec2_ObjSatId p (fst (fst (snd (Gia_ObjRecognizeMux E (objs p) n))))
                 = Cec2_ObjSatId p (fst (snd (snd (Gia_ObjRecognizeMux E (objs p) n))))
              then 4 else 6)
         \<and> (\<forall>i < length cs.
               add_clause_status E (s \<lparr> clauses := clauses s @ take i cs \<rparr>) (cs ! i))" .
next
  fix s' assume "Cec2_AddClausesSuper E p k vSuper s = Inr s'"
  from Cec2_AddClausesSuper_each [OF this] obtain cs c where
    r: "s' = s \<lparr> clauses := clauses s @ cs @ [c] \<rparr>" "length cs = length vSuper"
       "\<forall>b \<in> set cs. length b = 2" "length c = length vSuper + 1"
       "\<forall>i < length (cs @ [c]).
          add_clause_status E (s \<lparr> clauses := clauses s @ take i (cs @ [c]) \<rparr>) ((cs @ [c]) ! i)"
    by blast
  from r(2) have "length (cs @ [c]) = length vSuper + 1" by simp
  with r show "\<exists>cs c. s' = s \<lparr> clauses := clauses s @ cs @ [c] \<rparr>
         \<and> length (cs @ [c]) = length vSuper + 1
         \<and> length cs = length vSuper \<and> (\<forall>b \<in> set cs. length b = 2)
         \<and> length c = length vSuper + 1
         \<and> (\<forall>i < length (cs @ [c]).
               add_clause_status E (s \<lparr> clauses := clauses s @ take i (cs @ [c]) \<rparr>)
                 ((cs @ [c]) ! i))"
    by blast
next
  assume "\<forall>t c. add_clause_status E t c" and "fMark0 (objs p ! n)"
  then show "\<exists>s'. Cec2_AddClausesMux E p n s = Inr s'"
    by (rule Cec2_AddClausesMux_accepted [rotated])
next
  assume "\<forall>t c. add_clause_status E t c" and "Gia_ObjIsAnd p k"
  then show "\<exists>s'. Cec2_AddClausesSuper E p k vSuper s = Inr s'"
    by (rule Cec2_AddClausesSuper_accepted [rotated])
next
  fix e assume "Cec2_AddClausesMux E p n s = Inl e"
  then show "e \<in> AssertFailed ` {109, 139, 150, 161, 172, 197, 208}"
    by (rule Cec2_AddClausesMux_Inl)
next
  fix e assume "Cec2_AddClausesSuper E p k vSuper s = Inl e"
  then show "e \<in> AssertFailed ` {216, 232, 249}"
    by (rule Cec2_AddClausesSuper_Inl)
qed

theorem Cec2_AddClausesSuper_two_leaves_counterexample:
  "Gia_ObjIsAnd mux_new_vars 7
   \<and> clauses_added satoko_create
        (Cec2_AddClausesSuper (mux_ext SATOKO_UNSAT) mux_new_vars 7 [(2, False), (3, False)]
           satoko_create) = Some 3
   \<and> clauses_added satoko_create
        (Cec2_AddClausesSuper (mux_ext SATOKO_UNSAT) mux_new_vars 7 [(2, False), (3, False)]
           satoko_create)
       \<noteq> Some (2 * length [(2 :: nat, False), (3, False)] + 1)"
  by (simp add: clauses_added_def ex_defs sat_defs cnf_defs)

theorem Cec2_AddClauses_counts_witness:
  "fMark0 (objs mux_new_vars ! 6) \<and> Gia_ObjIsAnd mux_new_vars 7
   \<and> add_clause_status (mux_ext SATOKO_UNSAT) = (\<lambda>t c. True)
   \<and> clauses_added satoko_create
        (Cec2_AddClausesMux (mux_ext SATOKO_UNSAT) mux_new_vars 6 satoko_create) = Some 6
   \<and> clauses_added satoko_create
        (Cec2_AddClausesSuper (mux_ext SATOKO_UNSAT) mux_new_vars 7 [(2, False), (3, False)]
           satoko_create) = Some 3
   \<and> Cec2_AddClausesMux ((mux_ext SATOKO_UNSAT) \<lparr> add_clause_status := (\<lambda>t c. length (clauses t) < 2) \<rparr>)
        mux_new_vars 6 satoko_create = Inl (AssertFailed 161)"
proof -
  let ?E = "mux_ext SATOKO_UNSAT"
  have h1: "fMark0 (objs mux_new_vars ! 6)" by (simp add: ex_defs)
  have h2: "Gia_ObjIsAnd mux_new_vars 7" by (simp add: ex_defs cnf_defs)
  have h3': "add_clause_status ?E = (\<lambda>t c. True)" by (simp add: ex_defs)
  then have h3: "\<forall>t c. add_clause_status ?E t c" by simp
  have ne: "Cec2_ObjSatId mux_new_vars
              (fst (fst (snd (Gia_ObjRecognizeMux ?E (objs mux_new_vars) 6))))
          \<noteq> Cec2_ObjSatId mux_new_vars
              (fst (snd (snd (Gia_ObjRecognizeMux ?E (objs mux_new_vars) 6))))"
    by (simp add: ex_defs cnf_defs)
  have rej: "Cec2_AddClausesMux (?E \<lparr> add_clause_status := (\<lambda>t c. length (clauses t) < 2) \<rparr>)
        mux_new_vars 6 satoko_create = Inl (AssertFailed 161)"
    by (simp add: ex_defs sat_defs cnf_defs)
  note inst = Cec2_AddClauses_counts [where p = mux_new_vars and n = 6 and E = ?E
      and s = satoko_create and k = 7 and vSuper = "[(2, False), (3, False)]"]
  from inst h1 h3 obtain s1 where
    r1: "Cec2_AddClausesMux ?E mux_new_vars 6 satoko_create = Inr s1" by blast
  from inst h2 h3 obtain s2 where
    r2: "Cec2_AddClausesSuper ?E mux_new_vars 7 [(2, False), (3, False)] satoko_create = Inr s2"
    by blast
  from inst r1 ne obtain cs where
    c1: "s1 = satoko_create \<lparr> clauses := clauses satoko_create @ cs \<rparr>" "length cs = 6"
    by (auto split: if_splits)
  from inst r2 obtain ds d where
    c2: "s2 = satoko_create \<lparr> clauses := clauses satoko_create @ ds @ [d] \<rparr>"
      "length (ds @ [d]) = length [(2 :: nat, False), (3 :: nat, False)] + 1"
    by blast
  from h1 h2 h3' r1 r2 c1 c2 rej show ?thesis
    by (simp add: clauses_added_def)
qed

section \<open>What the CNF construction leaves unchanged\<close>

text \<open>
  The CNF construction touches only the SAT variable map, the clause set and the
  variable count of the solver, and the two work vectors.
\<close>

definition cnf_frame :: "cec2_man \<Rightarrow> cec2_man \<Rightarrow> bool" where
  "cnf_frame m m' \<longleftrightarrow>
     pAig m' = pAig m \<and> pPars m' = pPars m
     \<and> assumptions (pSat m') = assumptions (pSat m) \<and> queries (pSat m') = queries (pSat m)
     \<and> objs (pNew m') = objs (pNew m) \<and> travIdCur (pNew m') = travIdCur (pNew m)
     \<and> length (vCopies (pNew m')) = length (vCopies (pNew m))"

lemma cnf_frame_refl: "cnf_frame m m"
  by (simp add: cnf_frame_def)

lemma cnf_frame_trans: "cnf_frame a b \<Longrightarrow> cnf_frame b c \<Longrightarrow> cnf_frame a c"
  unfolding cnf_frame_def by (elim conjE, intro conjI) (erule trans, assumption)+

lemma Cec2_ObjSetSatId_frame:
  "Cec2_ObjSetSatId g i v = Inr g' \<Longrightarrow>
   objs g' = objs g \<and> travIdCur g' = travIdCur g \<and> length (vCopies g') = length (vCopies g)"
  by (auto simp: Cec2_ObjSetSatId_def split: if_splits)

lemma Cec2_ObjAddToFrontier_frame:
  "Cec2_ObjAddToFrontier m i = Inr m' \<Longrightarrow> cnf_frame m m'"
  by (auto simp: Cec2_ObjAddToFrontier_def cnf_frame_def satoko_add_variable_def
      dest: Cec2_ObjSetSatId_frame split: if_splits sum.splits)

lemma add_fanins_to_frontier_invariant:
  assumes "add_fanins_to_frontier m fs = Inr m'"
      and "P m"
      and "\<And>m1 f m2. P m1 \<Longrightarrow> f \<in> set fs \<Longrightarrow> Cec2_ObjAddToFrontier m1 (fst f) = Inr m2 \<Longrightarrow> P m2"
  shows "P m'"
  using assms
proof (induction fs arbitrary: m)
  case Nil
  then show ?case by simp
next
  case (Cons f fs)
  from Cons.prems(1) obtain m1 where
    s1: "Cec2_ObjAddToFrontier m (fst f) = Inr m1" and s2: "add_fanins_to_frontier m1 fs = Inr m'"
    by (auto split: sum.splits)
  have "P m1" by (rule Cons.prems(3) [OF Cons.prems(2) _ s1]) simp
  have tail: "\<And>m1 g m2. P m1 \<Longrightarrow> g \<in> set fs \<Longrightarrow> Cec2_ObjAddToFrontier m1 (fst g) = Inr m2 \<Longrightarrow> P m2"
    by (rule Cons.prems(3)) simp_all
  show ?case by (rule Cons.IH [OF s2 \<open>P m1\<close>]) (rule tail)
qed

lemma add_fanins_to_frontier_frame:
  assumes "add_fanins_to_frontier m fs = Inr m'"
  shows "cnf_frame m m'"
  by (rule add_fanins_to_frontier_invariant [OF assms, where P = "cnf_frame m"])
     (auto intro: cnf_frame_refl cnf_frame_trans Cec2_ObjAddToFrontier_frame)

lemma Cec2_AddClausesMux_frame:
  "Cec2_AddClausesMux E p n s = Inr s' \<Longrightarrow>
   assumptions s' = assumptions s \<and> queries s' = queries s"
  by (auto dest!: Cec2_AddClausesMux_Inr)

lemma Cec2_AddClausesSuper_frame:
  "Cec2_AddClausesSuper E p n vs s = Inr s' \<Longrightarrow>
   assumptions s' = assumptions s \<and> queries s' = queries s"
  by (auto dest!: Cec2_AddClausesSuper_Inr)

lemma fold_push_unique_subset:
  "fst ` set (fold (\<lambda>g v. Vec_PtrPushUnique v (g, False)) gs acc) \<subseteq> set gs \<union> fst ` set acc"
proof (induction gs arbitrary: acc)
  case Nil
  then show ?case by simp
next
  case (Cons g gs)
  have "fst ` set (Vec_PtrPushUnique acc (g, False)) \<subseteq> insert g (fst ` set acc)"
    by (auto simp: Vec_PtrPushUnique_def)
  with Cons.IH [of "Vec_PtrPushUnique acc (g, False)"] show ?case by auto
qed

text \<open>What one step of the frontier loop does, for every property it is to preserve.\<close>

lemma frontier_step_cases:
  assumes "frontier_step E m n = Inr m'"
  obtains fs m2 s where
    "add_fanins_to_frontier (m \<lparr> vFanins := fs \<rparr>) fs = Inr m2"
    "m' = m2 \<lparr> pSat := s \<rparr>"
    "assumptions s = assumptions (pSat m2)" "queries s = queries (pSat m2)"
    "fMark0 (objs (pNew m) ! n) \<longrightarrow>
       (\<exists>gs. mux_fanins (pNew m) n = Some gs \<and> fst ` set fs \<subseteq> set gs)"
    "\<not> fMark0 (objs (pNew m) ! n) \<longrightarrow> Cec2_CollectSuper (pNew m) n True = Inr fs"
proof (cases "fMark0 (objs (pNew m) ! n)")
  case True
  with assms obtain gs m2 s where
    gs: "mux_fanins (pNew m) n = Some gs" and
    m2: "add_fanins_to_frontier (m \<lparr> vFanins := fold (\<lambda>g v. Vec_PtrPushUnique v (g, False)) gs [] \<rparr>)
           (fold (\<lambda>g v. Vec_PtrPushUnique v (g, False)) gs []) = Inr m2" and
    s: "Cec2_AddClausesMux E (pNew m2) n (pSat m2) = Inr s" and m': "m' = m2 \<lparr> pSat := s \<rparr>"
    unfolding frontier_step_def Let_def
    by (simp split: if_splits option.splits sum.splits)
  from fold_push_unique_subset [of gs "[]"]
  have "fst ` set (fold (\<lambda>g v. Vec_PtrPushUnique v (g, False)) gs []) \<subseteq> set gs"
    by simp
  with that [OF m2 m'] Cec2_AddClausesMux_frame [OF s] gs True show ?thesis by blast
next
  case False
  with assms obtain vs m2 s where
    vs: "Cec2_CollectSuper (pNew m) n True = Inr vs" and
    m2: "add_fanins_to_frontier (m \<lparr> vFanins := vs \<rparr>) vs = Inr m2" and
    s: "Cec2_AddClausesSuper E (pNew m2) n (vFanins m2) (pSat m2) = Inr s" and
    m': "m' = m2 \<lparr> pSat := s \<rparr>"
    unfolding frontier_step_def Let_def
    by (simp split: if_splits option.splits sum.splits)
  with that [OF m2 m'] Cec2_AddClausesSuper_frame [OF s] False show ?thesis by blast
qed

lemma frontier_step_frame:
  assumes "frontier_step E m n = Inr m'"
  shows "cnf_frame m m'"
proof -
  from assms obtain fs m2 s where
    m2: "add_fanins_to_frontier (m \<lparr> vFanins := fs \<rparr>) fs = Inr m2" and
    m': "m' = m2 \<lparr> pSat := s \<rparr>" and
    s: "assumptions s = assumptions (pSat m2)" "queries s = queries (pSat m2)"
    by (rule frontier_step_cases)
  from add_fanins_to_frontier_frame [OF m2] m' s show ?thesis
    by (simp add: cnf_frame_def)
qed

lemma frontier_loop_invariant:
  assumes "frontier_loop E m i = Inr m'"
      and "P m"
      and "\<And>m1 n m2. P m1 \<Longrightarrow> n \<in> set (vFrontier m1) \<Longrightarrow> frontier_step E m1 n = Inr m2 \<Longrightarrow> P m2"
  shows "P m'"
  using assms
proof (induction E m i rule: frontier_loop.induct)
  case (1 E m i)
  show ?case
  proof (cases "i < length (vFrontier m)")
    case False
    with "1.prems"(1,2) show ?thesis by (simp add: frontier_loop.simps [of E m i])
  next
    case True
    with "1.prems"(1) obtain m1 where
      step: "frontier_step E m (vFrontier m ! i) = Inr m1" and
      rest: "frontier_loop E m1 (i + 1) = Inr m'"
      by (auto simp: frontier_loop.simps [of E m i] split: sum.splits)
    have "P m1" by (rule "1.prems"(3) [OF "1.prems"(2) _ step]) (use True in simp)
    show ?thesis
      by (rule "1.IH" [OF True step rest \<open>P m1\<close>]) (blast intro: "1.prems"(3))
  qed
qed

lemma frontier_loop_frame:
  assumes "frontier_loop E m i = Inr m'"
  shows "cnf_frame m m'"
  by (rule frontier_loop_invariant [OF assms, where P = "cnf_frame m"])
     (auto intro: cnf_frame_refl cnf_frame_trans frontier_step_frame)

lemma Cec2_ObjGetCnfVar_Inr:
  assumes "Cec2_ObjGetCnfVar E m iObj = Inr (v, m')"
  shows "(m' = m \<and> 0 \<le> Cec2_ObjSatId (pNew m) iObj)
       \<or> (\<exists>g. Cec2_ObjSetSatId (pNew m) iObj (int (nVars (pSat m))) = Inr g
              \<and> m' = m \<lparr> pNew := g, pSat := (pSat m) \<lparr> nVars := nVars (pSat m) + 1 \<rparr> \<rparr>)
       \<or> (\<exists>m1. Cec2_ObjAddToFrontier (m \<lparr> vFrontier := [] \<rparr>) iObj = Inr m1
              \<and> frontier_loop E m1 0 = Inr m')"
proof (cases "0 \<le> Cec2_ObjSatId (pNew m) iObj")
  case True
  with assms show ?thesis
    by (simp add: Cec2_ObjGetCnfVar_def split: if_splits)
next
  case False
  show ?thesis
  proof (cases "Gia_ObjIsCi (pNew m) iObj")
    case True
    with assms False show ?thesis
      by (simp add: Cec2_ObjGetCnfVar_def satoko_add_variable_def split: if_splits sum.splits)
  next
    case notci: False
    with assms False show ?thesis
      by (simp add: Cec2_ObjGetCnfVar_def split: if_splits sum.splits)
  qed
qed

lemma Cec2_ObjGetCnfVar_cases:
  assumes "Cec2_ObjGetCnfVar E m iObj = Inr (v, m')"
  obtains
    (ready) "m' = m" "0 \<le> Cec2_ObjSatId (pNew m) iObj"
  | (ci) g where "Cec2_ObjSetSatId (pNew m) iObj (int (nVars (pSat m))) = Inr g"
      "m' = m \<lparr> pNew := g, pSat := (pSat m) \<lparr> nVars := nVars (pSat m) + 1 \<rparr> \<rparr>"
  | (gate) m1 where "Cec2_ObjAddToFrontier (m \<lparr> vFrontier := [] \<rparr>) iObj = Inr m1"
      "frontier_loop E m1 0 = Inr m'"
  using Cec2_ObjGetCnfVar_Inr [OF assms] by blast

lemma Cec2_ObjGetCnfVar_frame:
  assumes "Cec2_ObjGetCnfVar E m iObj = Inr (v, m')"
  shows "cnf_frame m m'"
  using assms
proof (cases rule: Cec2_ObjGetCnfVar_cases)
  case ready
  then show ?thesis by (simp add: cnf_frame_refl)
next
  case (ci g)
  from Cec2_ObjSetSatId_frame [OF ci(1)] ci(2) show ?thesis by (simp add: cnf_frame_def)
next
  case (gate m1)
  have "cnf_frame m (m \<lparr> vFrontier := [] \<rparr>)" by (simp add: cnf_frame_def)
  from cnf_frame_trans [OF cnf_frame_trans [OF this Cec2_ObjAddToFrontier_frame [OF gate(1)]]
      frontier_loop_frame [OF gate(2)]]
  show ?thesis .
qed


section \<open>The structure of a call of Cec2_ManSolveTwo\<close>

lemma cnf_vars_Inr:
  assumes "cnf_vars E m lo hi = Inr (iVar0, iVar1, m2)"
  shows "\<exists>m0 m1.
           (if lo = 0
             then (case Cec2_ObjSetSatId (pNew m) 0 (int (nVars (pSat m))) of
                     Inl e \<Rightarrow> Inl e
                   | Inr g0 \<Rightarrow> Inr (m \<lparr> pNew := g0,
                                       pSat := (pSat m) \<lparr> nVars := nVars (pSat m) + 1 \<rparr> \<rparr>))
             else Inr m) = Inr m0
         \<and> Cec2_ObjGetCnfVar E m0 lo = Inr (iVar0, m1)
         \<and> Cec2_ObjGetCnfVar E m1 hi = Inr (iVar1, m2)"
proof -
  define X where "X = (if lo = 0
             then (case Cec2_ObjSetSatId (pNew m) 0 (int (nVars (pSat m))) of
                     Inl e \<Rightarrow> Inl e
                   | Inr g0 \<Rightarrow> Inr (m \<lparr> pNew := g0,
                                       pSat := (pSat m) \<lparr> nVars := nVars (pSat m) + 1 \<rparr> \<rparr>))
             else Inr m)"
  note body = assms [unfolded cnf_vars_def satoko_add_variable_def prod.case Let_def,
      unfolded X_def [symmetric]]
  from body show ?thesis
    unfolding X_def [symmetric]
    by (simp split: sum.splits prod.splits)
qed

lemma Cec2_ManSolveTwo_Inr:
  assumes "Cec2_ManSolveTwo E m a b fPh = Inr (status, m')"
  shows "\<exists>m0 iVar0 m1 iVar1 m2 m3 m4 g s2.
           min a b < max a b \<and> nVars (pSat m) = 0
         \<and> (if min a b = 0
             then (case Cec2_ObjSetSatId (pNew m) 0 (int (nVars (pSat m))) of
                     Inl e \<Rightarrow> Inl e
                   | Inr g0 \<Rightarrow> Inr (m \<lparr> pNew := g0,
                                       pSat := (pSat m) \<lparr> nVars := nVars (pSat m) + 1 \<rparr> \<rparr>))
             else Inr m) = Inr m0
         \<and> Cec2_ObjGetCnfVar E m0 (min a b) = Inr (iVar0, m1)
         \<and> Cec2_ObjGetCnfVar E m1 (max a b) = Inr (iVar1, m2)
         \<and> Cec2_ManCollect_rec
               (m2 \<lparr> vNodesNew := [], vObjSatPairs := [],
                     pNew := Gia_ManIncrementTravId (pNew m2) \<rparr>) (min a b) = Inr m3
         \<and> Cec2_ManCollect_rec m3 (max a b) = Inr m4
         \<and> clean_sat_ids (pNew m4) (vNodesNew m4) = Inr g
         \<and> two_queries E (pSat m4) (min a b) iVar0 iVar1 fPh = (status, s2)
         \<and> m' = m4 \<lparr> pNew := g, pSat := s2 \<rparr>
         \<and> cnf_vars E m (min a b) (max a b) = Inr (iVar0, iVar1, m2)"
proof -
  have mm: "(if b < a then b else a) = min a b" "(if b < a then a else b) = max a b"
    by (simp_all add: min_def max_def)
  have pre: "min a b < max a b" "nVars (pSat m) = 0"
    using assms unfolding Cec2_ManSolveTwo_def Let_def mm
    by (simp_all split: if_splits)
  note body = assms [unfolded Cec2_ManSolveTwo_def Let_def mm]
  from body pre have "\<exists>iVar0 iVar1 m2 m3 m4 g s2.
           cnf_vars E m (min a b) (max a b) = Inr (iVar0, iVar1, m2)
         \<and> Cec2_ManCollect_rec
               (m2 \<lparr> vNodesNew := [], vObjSatPairs := [],
                     pNew := Gia_ManIncrementTravId (pNew m2) \<rparr>) (min a b) = Inr m3
         \<and> Cec2_ManCollect_rec m3 (max a b) = Inr m4
         \<and> clean_sat_ids (pNew m4) (vNodesNew m4) = Inr g
         \<and> two_queries E (pSat m4) (min a b) iVar0 iVar1 fPh = (status, s2)
         \<and> m' = m4 \<lparr> pNew := g, pSat := s2 \<rparr>"
    by (simp split: sum.splits prod.splits)
  then obtain iVar0 iVar1 m2 m3 m4 g s2 where
    v: "cnf_vars E m (min a b) (max a b) = Inr (iVar0, iVar1, m2)" and
    r: "Cec2_ManCollect_rec
               (m2 \<lparr> vNodesNew := [], vObjSatPairs := [],
                     pNew := Gia_ManIncrementTravId (pNew m2) \<rparr>) (min a b) = Inr m3"
       "Cec2_ManCollect_rec m3 (max a b) = Inr m4"
       "clean_sat_ids (pNew m4) (vNodesNew m4) = Inr g"
       "two_queries E (pSat m4) (min a b) iVar0 iVar1 fPh = (status, s2)"
       "m' = m4 \<lparr> pNew := g, pSat := s2 \<rparr>"
    by blast
  from cnf_vars_Inr [OF v] obtain m0 m1 where
    c: "(if min a b = 0
             then (case Cec2_ObjSetSatId (pNew m) 0 (int (nVars (pSat m))) of
                     Inl e \<Rightarrow> Inl e
                   | Inr g0 \<Rightarrow> Inr (m \<lparr> pNew := g0,
                                       pSat := (pSat m) \<lparr> nVars := nVars (pSat m) + 1 \<rparr> \<rparr>))
             else Inr m) = Inr m0"
       "Cec2_ObjGetCnfVar E m0 (min a b) = Inr (iVar0, m1)"
       "Cec2_ObjGetCnfVar E m1 (max a b) = Inr (iVar1, m2)"
    by blast
  show ?thesis
    by (intro exI conjI)
       (rule pre(1), rule pre(2), rule c(1), rule c(2), rule c(3), rule r(1), rule r(2), rule r(3),
        rule r(4), rule r(5), rule v)
qed


section \<open>Collecting the cone\<close>

text \<open>The first statements of \<^verbatim>\<open>Cec2_ManCollect_rec\<close> on an unvisited object: mark it, and push it when it has a SAT variable.\<close>

definition collect_visit :: "cec2_man \<Rightarrow> nat \<Rightarrow> cec2_man" where
  "collect_visit m i =
     (if 0 \<le> vCopies (pNew m) ! i
      then m \<lparr> pNew := (pNew m) \<lparr> travIdCur := insert i (travIdCur (pNew m)) \<rparr>,
               vNodesNew := vNodesNew m @ [i] \<rparr>
      else m \<lparr> pNew := (pNew m) \<lparr> travIdCur := insert i (travIdCur (pNew m)) \<rparr> \<rparr>)"

text \<open>An object whose fanins, if it is an AND, are all in the set \<open>C\<close>; no output is such an object.\<close>

definition node_closed :: "gia_obj list \<Rightarrow> nat set \<Rightarrow> nat \<Rightarrow> bool" where
  "node_closed os C n =
     (case kind (os ! n) of
        And f0 c0 f1 c1 \<Rightarrow> f0 \<in> C \<and> f1 \<in> C
      | Co f0 c0 \<Rightarrow> False
      | _ \<Rightarrow> True)"

lemma node_closed_mono: "node_closed os C n \<Longrightarrow> C \<subseteq> D \<Longrightarrow> node_closed os D n"
  by (auto simp: node_closed_def split: gia_kind.splits)

lemma Cec2_ManCollect_rec_unfold:
  "Cec2_ManCollect_rec m i =
     (if i \<in> travIdCur (pNew m) then Inr m
      else if i = 0 then Inr (collect_visit m i)
      else
        (case kind (objs (pNew m) ! i) of
           And f0 c0 f1 c1 \<Rightarrow>
             if f0 < i \<and> f1 < i
             then (case Cec2_ManCollect_rec (collect_visit m i) f0 of
                     Inl e \<Rightarrow> Inl e
                   | Inr m3 \<Rightarrow> Cec2_ManCollect_rec m3 f1)
             else Inl BadAccess
         | Ci c \<Rightarrow>
             if \<not> 0 \<le> vCopies (pNew m) ! i then Inl (AssertFailed 743)
             else Inr ((collect_visit m i) \<lparr> vObjSatPairs := vObjSatPairs m
                          @ [(Gia_ManCiIdToId (pAig m) c, vCopies (pNew m) ! i)] \<rparr>)
         | _ \<Rightarrow> Inl BadAccess))"
  by (subst Cec2_ManCollect_rec.simps)
     (simp add: collect_visit_def Let_def Gia_ObjSetTravIdCurrentId_def Cec2_ObjSatId_def
        split: gia_kind.splits)

text \<open>
  What a call of \<^verbatim>\<open>Cec2_ManCollect_rec\<close> does: it changes only the traversal marks and
  the two result vectors; the object it is called on is marked afterwards; every object
  it marks is pushed when it has a SAT variable, and (object 0 apart) has its fanins
  marked too.
\<close>

definition collected :: "cec2_man \<Rightarrow> nat \<Rightarrow> cec2_man \<Rightarrow> bool" where
  "collected m i m' \<longleftrightarrow>
     pAig m' = pAig m \<and> pPars m' = pPars m \<and> pSat m' = pSat m
     \<and> objs (pNew m') = objs (pNew m) \<and> vCopies (pNew m') = vCopies (pNew m)
     \<and> travIdCur (pNew m) \<subseteq> travIdCur (pNew m') \<and> i \<in> travIdCur (pNew m')
     \<and> set (vNodesNew m) \<subseteq> set (vNodesNew m')
     \<and> (\<forall>n \<in> travIdCur (pNew m') - travIdCur (pNew m).
           (0 \<le> vCopies (pNew m) ! n \<longrightarrow> n \<in> set (vNodesNew m'))
           \<and> (n \<noteq> 0 \<longrightarrow> node_closed (objs (pNew m)) (travIdCur (pNew m')) n))"

lemma collected_visit_leaf:
  assumes "i \<notin> travIdCur (pNew m)"
      and "i \<noteq> 0 \<longrightarrow> node_closed (objs (pNew m)) (insert i (travIdCur (pNew m))) i"
      and "pAig m' = pAig (collect_visit m i)" "pPars m' = pPars (collect_visit m i)"
          "pSat m' = pSat (collect_visit m i)" "pNew m' = pNew (collect_visit m i)"
          "vNodesNew m' = vNodesNew (collect_visit m i)"
  shows "collected m i m'"
  using assms by (auto simp: collected_def collect_visit_def)

lemma collected_gate:
  assumes nv: "i \<notin> travIdCur (pNew m)"
      and k: "kind (objs (pNew m) ! i) = And f0 c0 f1 c1"
      and c1: "collected (collect_visit m i) f0 m3"
      and c2: "collected m3 f1 m'"
  shows "collected m i m'"
proof -
  let ?v = "collect_visit m i"
  have v: "pAig ?v = pAig m" "pPars ?v = pPars m" "pSat ?v = pSat m"
    "objs (pNew ?v) = objs (pNew m)" "vCopies (pNew ?v) = vCopies (pNew m)"
    "travIdCur (pNew ?v) = insert i (travIdCur (pNew m))"
    "set (vNodesNew m) \<subseteq> set (vNodesNew ?v)"
    "0 \<le> vCopies (pNew m) ! i \<longrightarrow> i \<in> set (vNodesNew ?v)"
    by (auto simp: collect_visit_def)
  note a = c1 [unfolded collected_def v] and b = c2 [unfolded collected_def]
  have frame: "pAig m' = pAig m" "pPars m' = pPars m" "pSat m' = pSat m"
    "objs (pNew m') = objs (pNew m)" "vCopies (pNew m') = vCopies (pNew m)"
    using a b by simp_all
  have V: "insert i (travIdCur (pNew m)) \<subseteq> travIdCur (pNew m3)"
    "travIdCur (pNew m3) \<subseteq> travIdCur (pNew m')" "f0 \<in> travIdCur (pNew m3)"
    "f1 \<in> travIdCur (pNew m')"
    using a b by simp_all
  have N: "set (vNodesNew ?v) \<subseteq> set (vNodesNew m3)" "set (vNodesNew m3) \<subseteq> set (vNodesNew m')"
    using a b by simp_all
  have new: "(0 \<le> vCopies (pNew m) ! n \<longrightarrow> n \<in> set (vNodesNew m'))
           \<and> (n \<noteq> 0 \<longrightarrow> node_closed (objs (pNew m)) (travIdCur (pNew m')) n)"
    if n: "n \<in> travIdCur (pNew m') - travIdCur (pNew m)" for n
  proof (cases "n = i")
    case True
    have "node_closed (objs (pNew m)) (travIdCur (pNew m')) i"
      using k V by (auto simp: node_closed_def)
    with True v(8) N show ?thesis by auto
  next
    case ni: False
    show ?thesis
    proof (cases "n \<in> travIdCur (pNew m3)")
      case True
      with n ni have "n \<in> travIdCur (pNew m3) - insert i (travIdCur (pNew m))" by simp
      with a have "(0 \<le> vCopies (pNew m) ! n \<longrightarrow> n \<in> set (vNodesNew m3))
           \<and> (n \<noteq> 0 \<longrightarrow> node_closed (objs (pNew m)) (travIdCur (pNew m3)) n)"
        by blast
      with N(2) V(2) show ?thesis by (blast intro: node_closed_mono)
    next
      case False
      with n have "n \<in> travIdCur (pNew m') - travIdCur (pNew m3)" by simp
      with b have "(0 \<le> vCopies (pNew m3) ! n \<longrightarrow> n \<in> set (vNodesNew m'))
           \<and> (n \<noteq> 0 \<longrightarrow> node_closed (objs (pNew m3)) (travIdCur (pNew m')) n)"
        by blast
      moreover have "vCopies (pNew m3) = vCopies (pNew m)" "objs (pNew m3) = objs (pNew m)"
        using a by simp_all
      ultimately show ?thesis by simp
    qed
  qed
  show ?thesis
    unfolding collected_def
    using frame V N v(7) new by blast
qed

lemma Cec2_ManCollect_rec_collected:
  "Cec2_ManCollect_rec m i = Inr m' \<Longrightarrow> collected m i m'"
proof (induction i arbitrary: m m' rule: less_induct)
  case (less i)
  note run = less.prems [unfolded Cec2_ManCollect_rec_unfold [of m i]]
  show ?case
  proof (cases "i \<in> travIdCur (pNew m)")
    case True
    with run have "m' = m" by simp
    with True show ?thesis by (simp add: collected_def)
  next
    case nv: False
    show ?thesis
    proof (cases "i = 0")
      case True
      with run nv have "m' = collect_visit m i" by simp
      with nv True show ?thesis by (intro collected_visit_leaf) simp_all
    next
      case nz: False
      show ?thesis
      proof (cases "kind (objs (pNew m) ! i)")
        case Const0
        with run nv nz show ?thesis by simp
      next
        case (Ci c)
        with run nv nz have m': "m' = (collect_visit m i) \<lparr> vObjSatPairs := vObjSatPairs m
                          @ [(Gia_ManCiIdToId (pAig m) c, vCopies (pNew m) ! i)] \<rparr>"
          by (simp split: if_splits)
        show ?thesis
          by (rule collected_visit_leaf [OF nv]) (simp_all add: m' node_closed_def Ci)
      next
        case (And f0 c0 f1 c1)
        with run nv nz obtain m3 where
          lt: "f0 < i" "f1 < i" and
          r1: "Cec2_ManCollect_rec (collect_visit m i) f0 = Inr m3" and
          r2: "Cec2_ManCollect_rec m3 f1 = Inr m'"
          by (auto split: if_splits sum.splits)
        from less.IH [OF lt(1) r1] less.IH [OF lt(2) r2]
        show ?thesis by (rule collected_gate [OF nv And])
      next
        case (Co f c)
        with run nv nz show ?thesis by simp
      qed
    qed
  qed
qed

lemma clean_sat_ids_result:
  "clean_sat_ids g xs = Inr g' \<Longrightarrow>
   objs g' = objs g \<and> length (vCopies g') = length (vCopies g)
   \<and> (\<forall>i < length (vCopies g).
         vCopies g' ! i = (if i \<in> set xs then - 1 else vCopies g ! i))"
proof (induction xs arbitrary: g)
  case Nil
  then show ?case by simp
next
  case (Cons x xs)
  from Cons.prems obtain g1 where
    c: "Cec2_ObjCleanSatId g x = Inr g1" and r: "clean_sat_ids g1 xs = Inr g'"
    by (auto split: sum.splits)
  from c have g1: "x < length (vCopies g)" "objs g1 = objs g" "vCopies g1 = (vCopies g)[x := - 1]"
    by (auto simp: Cec2_ObjCleanSatId_def split: if_splits)
  from Cons.IH [OF r] g1 show ?case by (auto simp: nth_list_update)
qed

section \<open>The queries of a call and the branches of sweeping a node\<close>


lemma solve_under_result:
  assumes "solve_under E s l0 l1 = (st, s')"
  shows "st = fst (solver_answer E (clauses s) (assumptions s @ [l0, l1]))
       \<and> queries s' = queries s @ [assumptions s @ [l0, l1]]
       \<and> clauses s' = clauses s \<and> assumptions s' = assumptions s \<and> nVars s' = nVars s"
  using assms
  by (auto simp: solve_under_def satoko_solve_def satoko_assump_push_def satoko_assump_pop_def
      butlast_append split: prod.splits)

lemma two_queries_result:
  assumes "two_queries E s lo v0 v1 fPh = (status, s2)" and "assumptions s = []"
  shows "(let q1 = [Abc_Var2Lit v0 True, Abc_Var2Lit v1 fPh];
              q2 = [Abc_Var2Lit v0 False, Abc_Var2Lit v1 (\<not> fPh)];
              st1 = fst (solver_answer E (clauses s) q1);
              st2 = fst (solver_answer E (clauses s) q2)
          in if st1 = SATOKO_UNSAT \<and> 0 < lo
             then queries s2 = queries s @ [q1, q2] \<and> status = st2
             else queries s2 = queries s @ [q1] \<and> status = st1)
       \<and> clauses s2 = clauses s \<and> assumptions s2 = []"
proof -
  obtain st1 s1 where
    q1: "solve_under E s (Abc_Var2Lit v0 True) (Abc_Var2Lit v1 fPh) = (st1, s1)"
    by (cases "solve_under E s (Abc_Var2Lit v0 True) (Abc_Var2Lit v1 fPh)")
  note r1 = solve_under_result [OF q1, unfolded assms(2), simplified]
  show ?thesis
  proof (cases "st1 = SATOKO_UNSAT \<and> 0 < lo")
    case True
    with assms(1) q1 have
      q2: "solve_under E s1 (Abc_Var2Lit v0 False) (Abc_Var2Lit v1 (\<not> fPh)) = (status, s2)"
      by (simp add: two_queries_def)
    note r2 = solve_under_result [OF q2]
    from True r1 r2 show ?thesis by (simp add: Let_def)
  next
    case False
    with assms(1) q1 have "status = st1" "s2 = s1"
      by (auto simp: two_queries_def)
    with False r1 show ?thesis by (auto simp: Let_def)
  qed
qed

lemma Cec2_ManSolveTwo_result:
  assumes run: "Cec2_ManSolveTwo E m a b fPh = Inr (status, m')"
      and emp: "assumptions (pSat m) = []"
  shows "\<exists>iVar0 iVar1 m2.
           cnf_vars E m (min a b) (max a b) = Inr (iVar0, iVar1, m2)
         \<and> clauses (pSat m') = clauses (pSat m2)
         \<and> (let q1 = [Abc_Var2Lit iVar0 True, Abc_Var2Lit iVar1 fPh];
                q2 = [Abc_Var2Lit iVar0 False, Abc_Var2Lit iVar1 (\<not> fPh)];
                st1 = fst (solver_answer E (clauses (pSat m')) q1);
                st2 = fst (solver_answer E (clauses (pSat m')) q2)
            in if st1 = SATOKO_UNSAT \<and> 0 < min a b
               then queries (pSat m') = queries (pSat m) @ [q1, q2] \<and> status = st2
               else queries (pSat m') = queries (pSat m) @ [q1] \<and> status = st1)"
    and "pAig m' = pAig m" and "assumptions (pSat m') = []"
proof -
  from Cec2_ManSolveTwo_Inr [OF run] obtain m0 iVar0 m1 iVar1 m2 m3 m4 g s2 where
    m0: "(if min a b = 0
          then (case Cec2_ObjSetSatId (pNew m) 0 (int (nVars (pSat m))) of
                  Inl e \<Rightarrow> Inl e
                | Inr g0 \<Rightarrow> Inr (m \<lparr> pNew := g0,
                                    pSat := (pSat m) \<lparr> nVars := nVars (pSat m) + 1 \<rparr> \<rparr>))
          else Inr m) = Inr m0" and
    v0: "Cec2_ObjGetCnfVar E m0 (min a b) = Inr (iVar0, m1)" and
    v1: "Cec2_ObjGetCnfVar E m1 (max a b) = Inr (iVar1, m2)" and
    c0: "Cec2_ManCollect_rec
               (m2 \<lparr> vNodesNew := [], vObjSatPairs := [],
                     pNew := Gia_ManIncrementTravId (pNew m2) \<rparr>) (min a b) = Inr m3" and
    c1: "Cec2_ManCollect_rec m3 (max a b) = Inr m4" and
    q: "two_queries E (pSat m4) (min a b) iVar0 iVar1 fPh = (status, s2)" and
    m': "m' = m4 \<lparr> pNew := g, pSat := s2 \<rparr>" and
    cv: "cnf_vars E m (min a b) (max a b) = Inr (iVar0, iVar1, m2)"
    by blast
  from m0 have f0: "pAig m0 = pAig m" "assumptions (pSat m0) = assumptions (pSat m)"
    "queries (pSat m0) = queries (pSat m)"
    by (auto split: if_splits sum.splits)
  note f1 = Cec2_ObjGetCnfVar_frame [OF v0, unfolded cnf_frame_def]
    and f2 = Cec2_ObjGetCnfVar_frame [OF v1, unfolded cnf_frame_def]
    and f3 = Cec2_ManCollect_rec_collected [OF c0, unfolded collected_def]
    and f4 = Cec2_ManCollect_rec_collected [OF c1, unfolded collected_def]
  have s4: "assumptions (pSat m4) = []" "queries (pSat m4) = queries (pSat m)" "pAig m4 = pAig m"
    using f0 f1 f2 f3 f4 emp by simp_all
  have p4: "pSat m4 = pSat m2"
    using f3 f4 by simp
  note r = two_queries_result [OF q s4(1)]
  from r m' have cl: "clauses (pSat m') = clauses (pSat m4)" by simp
  have qs: "(let q1 = [Abc_Var2Lit iVar0 True, Abc_Var2Lit iVar1 fPh];
                q2 = [Abc_Var2Lit iVar0 False, Abc_Var2Lit iVar1 (\<not> fPh)];
                st1 = fst (solver_answer E (clauses (pSat m')) q1);
                st2 = fst (solver_answer E (clauses (pSat m')) q2)
            in if st1 = SATOKO_UNSAT \<and> 0 < min a b
               then queries (pSat m') = queries (pSat m) @ [q1, q2] \<and> status = st2
               else queries (pSat m') = queries (pSat m) @ [q1] \<and> status = st1)"
    using r unfolding cl s4(2) [symmetric] using m'
    by (auto simp: Let_def split: if_splits)
  from cl p4 have cl2: "clauses (pSat m') = clauses (pSat m2)" by simp
  show "\<exists>iVar0 iVar1 m2.
           cnf_vars E m (min a b) (max a b) = Inr (iVar0, iVar1, m2)
         \<and> clauses (pSat m') = clauses (pSat m2)
         \<and> (let q1 = [Abc_Var2Lit iVar0 True, Abc_Var2Lit iVar1 fPh];
                q2 = [Abc_Var2Lit iVar0 False, Abc_Var2Lit iVar1 (\<not> fPh)];
                st1 = fst (solver_answer E (clauses (pSat m')) q1);
                st2 = fst (solver_answer E (clauses (pSat m')) q2)
            in if st1 = SATOKO_UNSAT \<and> 0 < min a b
               then queries (pSat m') = queries (pSat m) @ [q1, q2] \<and> status = st2
               else queries (pSat m') = queries (pSat m) @ [q1] \<and> status = st1)"
    by (intro exI conjI) (rule cv, rule cl2, rule qs)
  show "pAig m' = pAig m" using m' s4 by simp
  show "assumptions (pSat m') = []" using m' r by simp
qed

lemma Cec2_ManSweepNode_unfold:
  "Cec2_ManSweepNode E m iObj =
     (if iRepr (pReprs (pAig m) ! iObj) = GIA_VOID then Inl BadAccess
      else
        (case sweep_args m iObj of
           (a, b, fCompl) \<Rightarrow>
             (case Cec2_ManSolveTwo E m a b fCompl of
                Inl e \<Rightarrow> Inl e
              | Inr (status, m1) \<Rightarrow>
                  (case status of
                     SATOKO_SAT \<Rightarrow>
                       (let g = pAig m1;
                            g1 = g \<lparr> iPatsPi :=
                                   (if iPatsPi g = int32 (int32 (64 * int (nSimWords g)) - 1) then 1
                                    else int32 (iPatsPi g + 1)) \<rparr>
                        in if \<not> (iPatsPi g1 > 0 \<and> iPatsPi g1 < int32 (64 * int (nSimWords g1)))
                           then Inl (AssertFailed 797)
                           else Inr (0, sweep_finish (m1 \<lparr> pAig :=
                                  fold (\<lambda>(IdAig, IdSat) h.
                                          Cec2_ObjSimSetInputBit h IdAig (var_polarity_true (pSat m1) IdSat))
                                       (vObjSatPairs m1) g1 \<rparr>)))
                   | SATOKO_UNSAT \<Rightarrow>
                       Inr (1, sweep_finish (m1 \<lparr> pAig := Gia_ObjSetProved
                              ((pAig m1) \<lparr> objs := (objs (pAig m1))[iObj := (objs (pAig m1) ! iObj)
                                 \<lparr> Value := Abc_LitNotCond
                                     (Value (objs (pAig m) ! iRepr (pReprs (pAig m) ! iObj))) fCompl \<rparr>] \<rparr>)
                              iObj \<rparr>))
                   | SATOKO_UNDEC \<Rightarrow> Inl (AssertFailed 811)))))"
proof (cases "iRepr (pReprs (pAig m) ! iObj) = GIA_VOID")
  case True
  then show ?thesis
    by (simp add: Cec2_ManSweepNode_def sweep_branches_def Let_def)
next
  case False
  obtain a b fCompl where args: "sweep_args m iObj = (a, b, fCompl)"
    by (cases "sweep_args m iObj")
  note args' = args [unfolded sweep_args_def Let_def, simplified]
  show ?thesis
  proof (cases "Cec2_ManSolveTwo E m a b fCompl")
    case (Inl e)
    with False args args' show ?thesis
      by (simp add: Cec2_ManSweepNode_def sweep_branches_def Let_def)
  next
    case (Inr x)
    obtain status m1 where x: "x = (status, m1)" by (cases x)
    show ?thesis
    proof (cases status)
      case SATOKO_SAT
      with False args args' Inr x show ?thesis
        by (simp add: Cec2_ManSweepNode_def sweep_branches_def Let_def)
    next
      case SATOKO_UNSAT
      with False args args' Inr x show ?thesis
        by (simp add: Cec2_ManSweepNode_def sweep_branches_def Let_def)
    next
      case SATOKO_UNDEC
      with False args args' Inr x show ?thesis
        by (simp add: Cec2_ManSweepNode_def sweep_branches_def Let_def)
    qed
  qed
qed

lemma fold_SetInputBit_frame:
  "objs (fold (\<lambda>(IdAig, IdSat) h. Cec2_ObjSimSetInputBit h IdAig (f IdSat)) ps g) = objs g
   \<and> pReprs (fold (\<lambda>(IdAig, IdSat) h. Cec2_ObjSimSetInputBit h IdAig (f IdSat)) ps g) = pReprs g
   \<and> nSimWords (fold (\<lambda>(IdAig, IdSat) h. Cec2_ObjSimSetInputBit h IdAig (f IdSat)) ps g) = nSimWords g
   \<and> iPatsPi (fold (\<lambda>(IdAig, IdSat) h. Cec2_ObjSimSetInputBit h IdAig (f IdSat)) ps g) = iPatsPi g
   \<and> length (vSims (fold (\<lambda>(IdAig, IdSat) h. Cec2_ObjSimSetInputBit h IdAig (f IdSat)) ps g))
       = length (vSims g)"
proof (induction ps arbitrary: g)
  case Nil
  then show ?case by simp
next
  case (Cons x ps)
  obtain a b where x: "x = (a, b)" by (cases x)
  have "objs (Cec2_ObjSimSetInputBit g a (f b)) = objs g"
       "pReprs (Cec2_ObjSimSetInputBit g a (f b)) = pReprs g"
       "nSimWords (Cec2_ObjSimSetInputBit g a (f b)) = nSimWords g"
       "iPatsPi (Cec2_ObjSimSetInputBit g a (f b)) = iPatsPi g"
       "length (vSims (Cec2_ObjSimSetInputBit g a (f b))) = length (vSims g)"
    by (simp_all add: Cec2_ObjSimSetInputBit_def Let_def)
  with Cons.IH [of "Cec2_ObjSimSetInputBit g a (f b)"] x show ?case by simp
qed

section \<open>The pattern counter\<close>

lemma int32_id: "- (2 ^ 31) \<le> x \<Longrightarrow> x < 2 ^ 31 \<Longrightarrow> int32 x = x"
  by (simp add: int32_def sint_sbintrunc' signed_take_bit_int_eq_self)

lemma next_pattern_in_range:
  assumes W: "0 < W" "W < 2 ^ 25" and p: "1 \<le> p" "p < 64 * int W"
  shows "int32 (64 * int W) = 64 * int W"
    and "int32 (64 * int W - 1) = 64 * int W - 1"
    and "int32 (p + 1) = p + 1"
proof -
  have b: "64 * int W < 2 ^ 31" "0 < 64 * int W" using W by simp_all
  show "int32 (64 * int W) = 64 * int W" using b by (intro int32_id) simp_all
  show "int32 (64 * int W - 1) = 64 * int W - 1" using b by (intro int32_id) simp_all
  show "int32 (p + 1) = p + 1" using b p by (intro int32_id) simp_all
qed

lemma word0_index: "W * i + d = W * j \<Longrightarrow> d < W \<Longrightarrow> d = (0 :: nat)"
proof -
  assume e: "W * i + d = W * j" and d: "d < W"
  have "(W * i + d) mod W = d" using d by simp
  moreover have "(W * j) mod W = 0" by simp
  ultimately show "d = 0" using e by simp
qed

lemma Cec2_ObjSimSetInputBit_column0:
  assumes "pats_in_range g"
  shows "bit (vSims (Cec2_ObjSimSetInputBit g iObj v) ! (nSimWords g * j)) 0
         = bit (vSims g ! (nSimWords g * j)) 0"
proof -
  let ?i = "nat (iPatsPi g)" and ?W = "nSimWords g"
  let ?w = "?W * iObj + ?i div 64"
  from assms have i: "1 \<le> ?i" "?i < 64 * ?W" by (auto simp: pats_in_range_def)
  then have dW: "?i div 64 < ?W" by (simp add: less_mult_imp_div_less mult.commute)
  show ?thesis
  proof (cases "?w = ?W * j \<and> ?w < length (vSims g)")
    case True
    with word0_index [of ?W iObj "?i div 64" j] dW have "?i div 64 = 0" by simp
    then have "?i mod 64 = ?i" by simp
    with i have "0 < ?i mod 64" by simp
    then have "\<not> bit (push_bit (?i mod 64) (1 :: 64 word)) 0"
      by (simp add: bit_0)
    with True show ?thesis
      by (simp add: Cec2_ObjSimSetInputBit_def Let_def bit_xor_iff)
  next
    case out: False
    have "(vSims g)[?w := x] ! (?W * j) = vSims g ! (?W * j)" for x
    proof (cases "?w = ?W * j")
      case True
      with out have "length (vSims g) \<le> ?w" by simp
      then show ?thesis by (simp add: list_update_beyond)
    next
      case False
      then show ?thesis by simp
    qed
    then show ?thesis
      by (simp add: Cec2_ObjSimSetInputBit_def Let_def)
  qed
qed

lemma Cec2_ObjSimSetInputBit_frame:
  "nSimWords (Cec2_ObjSimSetInputBit g a v) = nSimWords g"
  "iPatsPi (Cec2_ObjSimSetInputBit g a v) = iPatsPi g"
  by (simp_all add: Cec2_ObjSimSetInputBit_def Let_def)

lemma fold_SetInputBit_column0:
  assumes "pats_in_range g"
  shows "bit (vSims (fold (\<lambda>(IdAig, IdSat) h. Cec2_ObjSimSetInputBit h IdAig (f IdSat)) ps g)
               ! (nSimWords g * j)) 0
         = bit (vSims g ! (nSimWords g * j)) 0"
  using assms
proof (induction ps arbitrary: g)
  case Nil
  then show ?case by simp
next
  case (Cons x ps)
  obtain a b where x: "x = (a, b)" by (cases x)
  let ?g = "Cec2_ObjSimSetInputBit g a (f b)"
  have r: "pats_in_range ?g"
    using Cons.prems by (simp add: pats_in_range_def Cec2_ObjSimSetInputBit_frame)
  from Cons.IH [OF r] Cec2_ObjSimSetInputBit_column0 [OF Cons.prems, of a "f b" j] x
  show ?case by (simp add: Cec2_ObjSimSetInputBit_frame)
qed

lemma sim_cis_loop_nSimWords:
  "sim_cis_loop rnd st cis = Inr st' \<Longrightarrow> nSimWords (fst st') = nSimWords (fst st)"
proof (induction cis arbitrary: st)
  case Nil
  then show ?case by simp
next
  case (Cons c cis)
  from Cons.prems obtain st1 where
    a: "Cec2_ObjSimCi rnd st c = Inr st1" and b: "sim_cis_loop rnd st1 cis = Inr st'"
    by (auto split: sum.splits)
  from a have "nSimWords (fst st1) = nSimWords (fst st)"
    by (auto simp: Cec2_ObjSimCi_def Let_def split: if_splits)
  with Cons.IH [OF b] show ?case by simp
qed

lemma Cec2_ManSolveTwo_pAig:
  assumes run: "Cec2_ManSolveTwo E m a b fPh = Inr (status, m')"
  shows "pAig m' = pAig m"
proof -
  from Cec2_ManSolveTwo_Inr [OF run] obtain m0 iVar0 m1 iVar1 m2 m3 m4 g s2 where
    m0: "(if min a b = 0
          then (case Cec2_ObjSetSatId (pNew m) 0 (int (nVars (pSat m))) of
                  Inl e \<Rightarrow> Inl e
                | Inr g0 \<Rightarrow> Inr (m \<lparr> pNew := g0,
                                    pSat := (pSat m) \<lparr> nVars := nVars (pSat m) + 1 \<rparr> \<rparr>))
          else Inr m) = Inr m0" and
    v0: "Cec2_ObjGetCnfVar E m0 (min a b) = Inr (iVar0, m1)" and
    v1: "Cec2_ObjGetCnfVar E m1 (max a b) = Inr (iVar1, m2)" and
    c0: "Cec2_ManCollect_rec
               (m2 \<lparr> vNodesNew := [], vObjSatPairs := [],
                     pNew := Gia_ManIncrementTravId (pNew m2) \<rparr>) (min a b) = Inr m3" and
    c1: "Cec2_ManCollect_rec m3 (max a b) = Inr m4" and
    m': "m' = m4 \<lparr> pNew := g, pSat := s2 \<rparr>"
    by blast
  from m0 have f0: "pAig m0 = pAig m"
    by (auto split: if_splits sum.splits)
  note f1 = Cec2_ObjGetCnfVar_frame [OF v0, unfolded cnf_frame_def]
    and f2 = Cec2_ObjGetCnfVar_frame [OF v1, unfolded cnf_frame_def]
    and f3 = Cec2_ManCollect_rec_collected [OF c0, unfolded collected_def]
    and f4 = Cec2_ManCollect_rec_collected [OF c1, unfolded collected_def]
  show ?thesis using f0 f1 f2 f3 f4 m' by simp
qed

text \<open>
  Claim C8. \<^verbatim>\<open>Cec2_ManSimulateCis\<close> sets the pattern counter to 1. With at least one
  simulation word (and \<open>64 * nSimWords\<close> within the range of \<^verbatim>\<open>int\<close>), sweeping a node
  keeps the counter in \<open>[1, 64 * nSimWords)\<close>: a SAT result moves it to the next column,
  from \<open>64 * nSimWords - 1\<close> back to 1, and passes the assertion on the range; any
  other result leaves it alone. Bit 0 of word 0 of every node (column 0) is never changed
  by the patterns written.
\<close>

theorem iPatsPi_stays_in_range:
  "(Cec2_ManSimulateCis rnd (p, k) = Inr (p', k') \<longrightarrow>
      iPatsPi p' = 1 \<and> nSimWords p' = nSimWords p \<and> (0 < nSimWords p \<longrightarrow> pats_in_range p'))
   \<and> (0 < nSimWords (pAig m) \<and> nSimWords (pAig m) < 2 ^ 25 \<and> pats_in_range (pAig m) \<longrightarrow>
        (\<forall>a b c m1. iRepr (pReprs (pAig m) ! iObj) \<noteq> GIA_VOID \<and> sweep_args m iObj = (a, b, c)
            \<and> Cec2_ManSolveTwo E m a b c = Inr (SATOKO_SAT, m1)
            \<longrightarrow> (\<exists>m'. Cec2_ManSweepNode E m iObj = Inr (0, m')))
        \<and> (\<forall>r m'. Cec2_ManSweepNode E m iObj = Inr (r, m') \<longrightarrow>
              nSimWords (pAig m') = nSimWords (pAig m) \<and> pats_in_range (pAig m')
            \<and> iPatsPi (pAig m')
                = (if r = 0
                   then (if iPatsPi (pAig m) = 64 * int (nSimWords (pAig m)) - 1 then 1
                         else iPatsPi (pAig m) + 1)
                   else iPatsPi (pAig m))
            \<and> (\<forall>j. bit (vSims (pAig m') ! (nSimWords (pAig m) * j)) 0
                    = bit (vSims (pAig m) ! (nSimWords (pAig m) * j)) 0)))"
proof (intro conjI impI allI)
  assume run: "Cec2_ManSimulateCis rnd (p, k) = Inr (p', k')"
  then obtain q where
    loop: "sim_cis_loop rnd (p, k) (vCis p) = Inr (q, k')" and p': "p' = q \<lparr> iPatsPi := 1 \<rparr>"
    by (auto simp: Cec2_ManSimulateCis_def split: sum.splits prod.splits)
  from sim_cis_loop_nSimWords [OF loop] p'
  show "iPatsPi p' = 1" and w: "nSimWords p' = nSimWords p" by simp_all
  show "pats_in_range p'" if "0 < nSimWords p"
    using that p' w by (simp add: pats_in_range_def)
next
  fix a b c m1
  assume pre: "0 < nSimWords (pAig m) \<and> nSimWords (pAig m) < 2 ^ 25 \<and> pats_in_range (pAig m)"
    and sat: "iRepr (pReprs (pAig m) ! iObj) \<noteq> GIA_VOID \<and> sweep_args m iObj = (a, b, c)
            \<and> Cec2_ManSolveTwo E m a b c = Inr (SATOKO_SAT, m1)"
  from sat have g: "pAig m1 = pAig m"
    using Cec2_ManSolveTwo_pAig by blast
  from pre have r: "1 \<le> iPatsPi (pAig m)" "iPatsPi (pAig m) < 64 * int (nSimWords (pAig m))"
    by (simp_all add: pats_in_range_def)
  from pre have W: "0 < nSimWords (pAig m)" "nSimWords (pAig m) < 2 ^ 25" by simp_all
  note n = next_pattern_in_range [OF W r]
  from sat r show "\<exists>m'. Cec2_ManSweepNode E m iObj = Inr (0, m')"
    by (simp add: Cec2_ManSweepNode_unfold Let_def g n)
next
  fix r m'
  assume pre: "0 < nSimWords (pAig m) \<and> nSimWords (pAig m) < 2 ^ 25 \<and> pats_in_range (pAig m)"
    and run: "Cec2_ManSweepNode E m iObj = Inr (r, m')"
  obtain a b c where args: "sweep_args m iObj = (a, b, c)" by (cases "sweep_args m iObj")
  note run' = run [unfolded Cec2_ManSweepNode_unfold args prod.case]
  from run' obtain status m1 where
    two: "Cec2_ManSolveTwo E m a b c = Inr (status, m1)"
    by (auto split: if_splits sum.splits)
  from Cec2_ManSolveTwo_pAig [OF two] have g: "pAig m1 = pAig m" .
  from pre have rg: "1 \<le> iPatsPi (pAig m)" "iPatsPi (pAig m) < 64 * int (nSimWords (pAig m))"
    by (simp_all add: pats_in_range_def)
  from pre have W: "0 < nSimWords (pAig m)" "nSimWords (pAig m) < 2 ^ 25" by simp_all
  note n = next_pattern_in_range [OF W rg]
  let ?g1 = "(pAig m) \<lparr> iPatsPi := (if iPatsPi (pAig m) = 64 * int (nSimWords (pAig m)) - 1 then 1
                                     else iPatsPi (pAig m) + 1) \<rparr>"
  have g1: "pats_in_range ?g1" using rg by (simp add: pats_in_range_def)
  have all: "nSimWords (pAig m') = nSimWords (pAig m) \<and> pats_in_range (pAig m')
            \<and> iPatsPi (pAig m')
                = (if r = 0
                   then (if iPatsPi (pAig m) = 64 * int (nSimWords (pAig m)) - 1 then 1
                         else iPatsPi (pAig m) + 1)
                   else iPatsPi (pAig m))
            \<and> (\<forall>j. bit (vSims (pAig m') ! (nSimWords (pAig m) * j)) 0
                    = bit (vSims (pAig m) ! (nSimWords (pAig m) * j)) 0)"
  proof (cases status)
    case SATOKO_SAT
    with run' two g have m': "r = 0"
      "pAig m' = fold (\<lambda>(IdAig, IdSat) h.
                  Cec2_ObjSimSetInputBit h IdAig (var_polarity_true (pSat m1) IdSat))
                (vObjSatPairs m1) ?g1"
      by (auto simp: Let_def sweep_finish_def n split: if_splits)
    from fold_SetInputBit_column0 [OF g1, of "var_polarity_true (pSat m1)" "vObjSatPairs m1"]
    have col: "\<And>j. bit (vSims (pAig m') ! (nSimWords (pAig m) * j)) 0
                  = bit (vSims (pAig m) ! (nSimWords (pAig m) * j)) 0"
      by (simp add: m'(2))
    from m' g1 col show ?thesis
      by (simp add: fold_SetInputBit_frame pats_in_range_def)
  next
    case SATOKO_UNSAT
    with run' two g pre show ?thesis
      by (auto simp: sweep_finish_def Gia_ObjSetProved_def pats_in_range_def split: if_splits)
  next
    case SATOKO_UNDEC
    with run' two show ?thesis by (auto split: if_splits)
  qed
  from all show "nSimWords (pAig m') = nSimWords (pAig m)" by blast
  from all show "pats_in_range (pAig m')" by blast
  from all show "iPatsPi (pAig m')
                = (if r = 0
                   then (if iPatsPi (pAig m) = 64 * int (nSimWords (pAig m)) - 1 then 1
                         else iPatsPi (pAig m) + 1)
                   else iPatsPi (pAig m))" by blast
  fix j
  from all show "bit (vSims (pAig m') ! (nSimWords (pAig m) * j)) 0
                    = bit (vSims (pAig m) ! (nSimWords (pAig m) * j)) 0" by blast
qed


theorem iPatsPi_stays_in_range_witness:
  "(case Cec2_ManSimulateCis (\<lambda>n. 3) (cis_example, 0) of
      Inl e \<Rightarrow> False
    | Inr (p', k') \<Rightarrow> iPatsPi p' = 1 \<and> vSims p' = [0, 6, 0] \<and> pats_in_range p')
   \<and> 0 < nSimWords (pAig mux_man) \<and> nSimWords (pAig mux_man) < 2 ^ 25
   \<and> pats_in_range (pAig mux_man)
   \<and> (case Cec2_ManSweepNode (mux_ext SATOKO_SAT) mux_man 7 of
         Inl e \<Rightarrow> False
       | Inr (r, m') \<Rightarrow> r = 0 \<and> iPatsPi (pAig m') = 2
                         \<and> vSims (pAig m') = [0, 4, 0, 0, 0, 0, 0, 0]
                         \<and> pats_in_range (pAig m'))"
proof -
  have e1: "(case Cec2_ManSimulateCis (\<lambda>n. 3) (cis_example, 0) of
      Inl e \<Rightarrow> False
    | Inr (p', k') \<Rightarrow> nSimWords p' = 1 \<and> vSims p' = [0, 6, 0])"
    by (simp add: cis_example_def Cec2_ManSimAlloc_def Cec2_ManSimulateCis_def Cec2_ObjSimCi_def
        Let_def ex_defs upt_rec)
  then obtain p' k' where
    s: "Cec2_ManSimulateCis (\<lambda>n. 3) (cis_example, 0) = Inr (p', k')" and
    v: "vSims p' = [0, 6, 0]"
    by (cases "Cec2_ManSimulateCis (\<lambda>n. 3) (cis_example, 0)") auto
  have w: "0 < nSimWords cis_example"
    by (simp add: cis_example_def Cec2_ManSimAlloc_def)
  have h1: "0 < nSimWords (pAig mux_man)" by (simp add: ex_defs)
  have h2: "nSimWords (pAig mux_man) < 2 ^ 25" by (simp add: ex_defs)
  have h3: "pats_in_range (pAig mux_man)" by (simp add: ex_defs pats_in_range_def)
  have e2: "(case Cec2_ManSweepNode (mux_ext SATOKO_SAT) mux_man 7 of
         Inl e \<Rightarrow> False
       | Inr (r, m') \<Rightarrow> r = 0 \<and> iPatsPi (pAig m') = 2
                         \<and> vSims (pAig m') = [0, 4, 0, 0, 0, 0, 0, 0])"
    by (simp add: ex_defs sat_defs cnf_defs solve_defs sweep_defs)
  then obtain m' where
    run: "Cec2_ManSweepNode (mux_ext SATOKO_SAT) mux_man 7 = Inr (0, m')" and
    r: "iPatsPi (pAig m') = 2" "vSims (pAig m') = [0, 4, 0, 0, 0, 0, 0, 0]"
    by (cases "Cec2_ManSweepNode (mux_ext SATOKO_SAT) mux_man 7") auto
  note inst = iPatsPi_stays_in_range [where m = mux_man and E = "mux_ext SATOKO_SAT" and iObj = 7
      and rnd = "\<lambda>n. 3" and p = cis_example and k = 0 and p' = p' and k' = k']
  from inst s w have a: "iPatsPi p' = 1 \<and> pats_in_range p'" by blast
  from inst h1 h2 h3 run have b: "pats_in_range (pAig m')" by blast
  from s v a h1 h2 h3 run r b show ?thesis by simp
qed

section \<open>The SAT variable map is clean after every call\<close>

text \<open>
  Between two states of the rebuilt AIG, the SAT variable map changed only on objects of
  the set \<open>C\<close>, and only from \<open>-1\<close> to a variable.
\<close>

definition sat_ids_within :: "nat set \<Rightarrow> gia_man \<Rightarrow> gia_man \<Rightarrow> bool" where
  "sat_ids_within C g g' \<longleftrightarrow>
     length (vCopies g') = length (vCopies g)
     \<and> (\<forall>i. vCopies g' ! i \<noteq> vCopies g ! i \<longrightarrow> i \<in> C \<and> vCopies g ! i = - 1 \<and> 0 \<le> vCopies g' ! i)"

text \<open>A set of objects that contains the fanins of its AND nodes and no output.\<close>

definition fanin_closed :: "gia_obj list \<Rightarrow> nat set \<Rightarrow> bool" where
  "fanin_closed os C \<longleftrightarrow> (\<forall>n \<in> C. node_closed os C n)"

lemma fanin_closed_And:
  "fanin_closed os C \<Longrightarrow> n \<in> C \<Longrightarrow> kind (os ! n) = And f0 c0 f1 c1 \<Longrightarrow> f0 \<in> C \<and> f1 \<in> C"
  by (auto simp: fanin_closed_def node_closed_def dest!: bspec)

lemma fanin_closed_Co:
  "fanin_closed os C \<Longrightarrow> n \<in> C \<Longrightarrow> kind (os ! n) \<noteq> Co f0 c0"
  by (auto simp: fanin_closed_def node_closed_def dest!: bspec)

lemma sat_ids_within_refl: "sat_ids_within C g g"
  by (simp add: sat_ids_within_def)

lemma sat_ids_withinD:
  "sat_ids_within C g g' \<Longrightarrow> vCopies g' ! i \<noteq> vCopies g ! i \<Longrightarrow>
   i \<in> C \<and> vCopies g ! i = - 1 \<and> 0 \<le> vCopies g' ! i"
  by (simp add: sat_ids_within_def)

lemma sat_ids_within_trans:
  assumes "sat_ids_within C g1 g2" and "sat_ids_within C g2 g3"
  shows "sat_ids_within C g1 g3"
proof -
  have len: "length (vCopies g3) = length (vCopies g1)"
    using assms by (simp add: sat_ids_within_def)
  have ent: "i \<in> C \<and> vCopies g1 ! i = - 1 \<and> 0 \<le> vCopies g3 ! i"
    if d: "vCopies g3 ! i \<noteq> vCopies g1 ! i" for i
  proof (cases "vCopies g2 ! i = vCopies g1 ! i")
    case True
    with d have "vCopies g3 ! i \<noteq> vCopies g2 ! i" by simp
    from sat_ids_withinD [OF assms(2) this] True show ?thesis by simp
  next
    case False
    from sat_ids_withinD [OF assms(1) False]
    have a: "i \<in> C" "vCopies g1 ! i = - 1" "0 \<le> vCopies g2 ! i"
      by simp_all
    have "vCopies g3 ! i = vCopies g2 ! i"
    proof (rule ccontr)
      assume "vCopies g3 ! i \<noteq> vCopies g2 ! i"
      from sat_ids_withinD [OF assms(2) this] have "vCopies g2 ! i = - 1" by simp
      with a(3) show False by simp
    qed
    with a show ?thesis by simp
  qed
  from len ent show ?thesis unfolding sat_ids_within_def by blast
qed

lemma Cec2_ObjSetSatId_within:
  assumes "Cec2_ObjSetSatId g i v = Inr g'" and "0 \<le> v" and "i \<in> C"
  shows "sat_ids_within C g g'"
proof -
  from assms(1) have g': "i < length (vCopies g)" "vCopies g ! i = - 1"
    "vCopies g' = (vCopies g)[i := v]"
    by (auto simp: Cec2_ObjSetSatId_def Cec2_ObjSatId_def split: if_splits)
  show ?thesis
    unfolding sat_ids_within_def g'(3)
    using g'(1,2) assms(2,3) by (auto simp: nth_list_update split: if_splits)
qed

lemma Cec2_ObjAddToFrontier_within:
  assumes "Cec2_ObjAddToFrontier m i = Inr m'" and "i \<in> C"
  shows "sat_ids_within C (pNew m) (pNew m') \<and> set (vFrontier m') \<subseteq> insert i (set (vFrontier m))"
proof (cases "0 \<le> Cec2_ObjSatId (pNew m) i")
  case True
  with assms(1) have "m' = m" by (auto simp: Cec2_ObjAddToFrontier_def split: if_splits)
  then show ?thesis by (auto simp: sat_ids_within_refl)
next
  case False
  with assms(1) have "\<exists>g. Cec2_ObjSetSatId (pNew m) i (int (nVars (pSat m))) = Inr g
      \<and> pNew m' = g \<and> set (vFrontier m') \<subseteq> insert i (set (vFrontier m))"
    by (auto simp: Cec2_ObjAddToFrontier_def satoko_add_variable_def split: if_splits sum.splits)
  then obtain g where
    g: "Cec2_ObjSetSatId (pNew m) i (int (nVars (pSat m))) = Inr g" and
    m': "pNew m' = g" "set (vFrontier m') \<subseteq> insert i (set (vFrontier m))"
    by blast
  from Cec2_ObjSetSatId_within [OF g _ assms(2)] m' show ?thesis by simp
qed

lemma add_fanins_to_frontier_within:
  assumes "add_fanins_to_frontier m fs = Inr m'" and "fst ` set fs \<subseteq> C"
  shows "sat_ids_within C (pNew m) (pNew m') \<and> set (vFrontier m') \<subseteq> set (vFrontier m) \<union> C"
proof (rule add_fanins_to_frontier_invariant [OF assms(1),
      where P = "\<lambda>x. sat_ids_within C (pNew m) (pNew x) \<and> set (vFrontier x) \<subseteq> set (vFrontier m) \<union> C"])
  show "sat_ids_within C (pNew m) (pNew m) \<and> set (vFrontier m) \<subseteq> set (vFrontier m) \<union> C"
    by (simp add: sat_ids_within_refl)
next
  fix m1 f m2
  assume p: "sat_ids_within C (pNew m) (pNew m1) \<and> set (vFrontier m1) \<subseteq> set (vFrontier m) \<union> C"
    and f: "f \<in> set fs" and s: "Cec2_ObjAddToFrontier m1 (fst f) = Inr m2"
  from f assms(2) have "fst f \<in> C" by auto
  from Cec2_ObjAddToFrontier_within [OF s this] p
  show "sat_ids_within C (pNew m) (pNew m2) \<and> set (vFrontier m2) \<subseteq> set (vFrontier m) \<union> C"
    using \<open>fst f \<in> C\<close> by (auto intro: sat_ids_within_trans)
qed

lemma Cec2_CollectSuper_rec_within:
  assumes "fanin_closed (objs p) C"
  shows "Cec2_CollectSuper_rec p pObj vSuper fFirst fUseMuxes = Inr vs \<Longrightarrow>
         fst pObj \<in> C \<Longrightarrow> fst ` set vSuper \<subseteq> C \<Longrightarrow> fst ` set vs \<subseteq> C"
proof (induction "fst pObj" arbitrary: pObj vSuper fFirst vs rule: less_induct)
  case less
  note run = less.prems(1) [unfolded Cec2_CollectSuper_rec.simps [of p pObj vSuper fFirst fUseMuxes]]
  show ?case
  proof (cases "snd pObj \<or> Gia_ObjIsCi p (fst pObj)
         \<or> (\<not> fFirst \<and> int32 (int (Value (objs p ! fst pObj))) > 1)
         \<or> (fUseMuxes \<and> fMark0 (objs p ! fst pObj))")
    case True
    with run have "vs = Vec_PtrPushUnique vSuper pObj" by simp
    with less.prems(2,3) show ?thesis by (auto simp: Vec_PtrPushUnique_def split: if_splits)
  next
    case False
    with run obtain f0 c0 f1 c1 v1 where
      k: "kind (objs p ! fst pObj) = And f0 c0 f1 c1" and lt: "f0 < fst pObj" "f1 < fst pObj" and
      r1: "Cec2_CollectSuper_rec p (f0, c0) vSuper False fUseMuxes = Inr v1" and
      r2: "Cec2_CollectSuper_rec p (f1, c1) v1 False fUseMuxes = Inr vs"
      by (auto split: gia_kind.splits if_splits sum.splits)
    from fanin_closed_And [OF assms less.prems(2) k] have in_c: "f0 \<in> C" "f1 \<in> C"
      by simp_all
    have "fst ` set v1 \<subseteq> C"
      by (rule less.hyps [OF _ r1]) (use lt in_c less.prems(3) in simp_all)
    then show ?thesis
      by (intro less.hyps [OF _ r2]) (use lt in_c in simp_all)
  qed
qed

lemma mux_fanins_within:
  assumes "fanin_closed (objs p) C" and "mux_fanins p n = Some gs" and "n \<in> C"
  shows "set gs \<subseteq> C"
proof -
  from assms(2) obtain n0 n1 a b c d where
    f: "Gia_ObjFanin0 p n = Some n0" "Gia_ObjFanin1 p n = Some n1"
       "Gia_ObjFanin0 p n0 = Some a" "Gia_ObjFanin0 p n1 = Some b"
       "Gia_ObjFanin1 p n0 = Some c" "Gia_ObjFanin1 p n1 = Some d" and gs: "gs = [a, b, c, d]"
    by (auto simp: mux_fanins_def split: Option.bind_splits)
  have step: "x \<in> C \<and> y \<in> C" if "k \<in> C" "Gia_ObjFanin0 p k = Some x" "Gia_ObjFanin1 p k = Some y"
    for k x y
  proof -
    from that(2,3) obtain c0 c1 where "kind (objs p ! k) = And x c0 y c1"
      by (auto simp: Gia_ObjFanin0_def Gia_ObjFanin1_def split: gia_kind.splits)
    from fanin_closed_And [OF assms(1) that(1) this] show ?thesis .
  qed
  from step [OF assms(3) f(1,2)] have "n0 \<in> C" "n1 \<in> C" by simp_all
  with step [OF _ f(3,5)] step [OF _ f(4,6)] gs show ?thesis by simp
qed

lemma frontier_step_within:
  assumes cl: "fanin_closed (objs (pNew m)) C"
      and st: "frontier_step E m n = Inr m'" and n: "n \<in> C"
  shows "sat_ids_within C (pNew m) (pNew m') \<and> set (vFrontier m') \<subseteq> set (vFrontier m) \<union> C"
proof -
  from st obtain fs m2 s where
    m2: "add_fanins_to_frontier (m \<lparr> vFanins := fs \<rparr>) fs = Inr m2" and
    m': "m' = m2 \<lparr> pSat := s \<rparr>" and
    mux: "fMark0 (objs (pNew m) ! n) \<longrightarrow>
       (\<exists>gs. mux_fanins (pNew m) n = Some gs \<and> fst ` set fs \<subseteq> set gs)" and
    sup: "\<not> fMark0 (objs (pNew m) ! n) \<longrightarrow> Cec2_CollectSuper (pNew m) n True = Inr fs"
    by (rule frontier_step_cases)
  have fs: "fst ` set fs \<subseteq> C"
  proof (cases "fMark0 (objs (pNew m) ! n)")
    case True
    with mux obtain gs where "mux_fanins (pNew m) n = Some gs" "fst ` set fs \<subseteq> set gs" by blast
    with mux_fanins_within [OF cl _ n] show ?thesis by blast
  next
    case False
    with sup have "Cec2_CollectSuper_rec (pNew m) (n, False) [] True True = Inr fs"
      by (auto simp: Cec2_CollectSuper_def split: if_splits)
    from Cec2_CollectSuper_rec_within [OF cl this] n show ?thesis by simp
  qed
  from add_fanins_to_frontier_within [OF m2 fs] m' show ?thesis by simp
qed

lemma frontier_loop_within:
  assumes cl: "fanin_closed (objs (pNew m)) C"
      and run: "frontier_loop E m i = Inr m'" and fr: "set (vFrontier m) \<subseteq> C"
  shows "sat_ids_within C (pNew m) (pNew m')"
proof -
  let ?P = "\<lambda>x. objs (pNew x) = objs (pNew m) \<and> set (vFrontier x) \<subseteq> C
                 \<and> sat_ids_within C (pNew m) (pNew x)"
  have "?P m'"
  proof (rule frontier_loop_invariant [OF run, where P = ?P])
    show "?P m" using fr by (simp add: sat_ids_within_refl)
  next
    fix m1 n m2
    assume p: "?P m1" and n: "n \<in> set (vFrontier m1)" and s: "frontier_step E m1 n = Inr m2"
    from p cl have cl1: "fanin_closed (objs (pNew m1)) C" by simp
    from p n have nC: "n \<in> C" by blast
    from frontier_step_within [OF cl1 s nC] frontier_step_frame [OF s] p
    show "?P m2" by (auto simp: cnf_frame_def intro: sat_ids_within_trans)
  qed
  then show ?thesis by simp
qed

lemma Cec2_ObjGetCnfVar_within:
  assumes cl: "fanin_closed (objs (pNew m)) C"
      and run: "Cec2_ObjGetCnfVar E m iObj = Inr (v, m')" and i: "iObj \<in> C"
  shows "sat_ids_within C (pNew m) (pNew m')"
  using run
proof (cases rule: Cec2_ObjGetCnfVar_cases)
  case ready
  then show ?thesis by (simp add: sat_ids_within_refl)
next
  case (ci g)
  from Cec2_ObjSetSatId_within [OF ci(1) _ i] ci(2) show ?thesis by simp
next
  case (gate m1)
  let ?m = "m \<lparr> vFrontier := [] \<rparr>"
  from Cec2_ObjAddToFrontier_within [OF gate(1) i]
  have a: "sat_ids_within C (pNew m) (pNew m1)" "set (vFrontier m1) \<subseteq> C"
    using i by auto
  from Cec2_ObjAddToFrontier_frame [OF gate(1)] cl
  have cl1: "fanin_closed (objs (pNew m1)) C" by (simp add: cnf_frame_def)
  from frontier_loop_within [OF cl1 gate(2) a(2)] a(1) show ?thesis
    by (rule sat_ids_within_trans [rotated])
qed

text \<open>
  Claim C7. When a call of \<^verbatim>\<open>Cec2_ManSolveTwo\<close> returns (object 0 of the rebuilt AIG
  being the constant), the SAT variable map has its length unchanged and every entry
  that was \<open>-1\<close> before the call is \<open>-1\<close> again: every object that got a variable
  during the call, the constant and the inputs of the cone included, was reset. A map
  that is all \<open>-1\<close> before the call is all \<open>-1\<close> after it.
\<close>

theorem Cec2_ManSolveTwo_cleans_sat_ids:
  assumes run: "Cec2_ManSolveTwo E m a b fPh = Inr (status, m')"
      and c0: "kind (objs (pNew m) ! 0) = Const0"
  shows "length (vCopies (pNew m')) = length (vCopies (pNew m))
       \<and> (\<forall>i < length (vCopies (pNew m)).
             vCopies (pNew m) ! i = - 1 \<longrightarrow> vCopies (pNew m') ! i = - 1)
       \<and> ((\<forall>v \<in> set (vCopies (pNew m)). v = - 1) \<longrightarrow> (\<forall>v \<in> set (vCopies (pNew m')). v = - 1))"
proof -
  from Cec2_ManSolveTwo_Inr [OF run] obtain m0 iVar0 m1 iVar1 m2 m3 m4 g s2 where
    m0: "(if min a b = 0
          then (case Cec2_ObjSetSatId (pNew m) 0 (int (nVars (pSat m))) of
                  Inl e \<Rightarrow> Inl e
                | Inr g0 \<Rightarrow> Inr (m \<lparr> pNew := g0,
                                    pSat := (pSat m) \<lparr> nVars := nVars (pSat m) + 1 \<rparr> \<rparr>))
          else Inr m) = Inr m0" and
    v0: "Cec2_ObjGetCnfVar E m0 (min a b) = Inr (iVar0, m1)" and
    v1: "Cec2_ObjGetCnfVar E m1 (max a b) = Inr (iVar1, m2)" and
    k0: "Cec2_ManCollect_rec
               (m2 \<lparr> vNodesNew := [], vObjSatPairs := [],
                     pNew := Gia_ManIncrementTravId (pNew m2) \<rparr>) (min a b) = Inr m3" and
    k1: "Cec2_ManCollect_rec m3 (max a b) = Inr m4" and
    cln: "clean_sat_ids (pNew m4) (vNodesNew m4) = Inr g" and
    m': "m' = m4 \<lparr> pNew := g, pSat := s2 \<rparr>"
    by blast
  let ?os = "objs (pNew m)" and ?C = "travIdCur (pNew m4)"
  let ?m2 = "m2 \<lparr> vNodesNew := [], vObjSatPairs := [],
                  pNew := Gia_ManIncrementTravId (pNew m2) \<rparr>"
  have o0: "objs (pNew m0) = ?os"
    using m0 by (auto dest: Cec2_ObjSetSatId_frame split: if_splits sum.splits)
  note f1 = Cec2_ObjGetCnfVar_frame [OF v0, unfolded cnf_frame_def]
    and f2 = Cec2_ObjGetCnfVar_frame [OF v1, unfolded cnf_frame_def]
    and f3 = Cec2_ManCollect_rec_collected [OF k0, unfolded collected_def]
    and f4 = Cec2_ManCollect_rec_collected [OF k1, unfolded collected_def]
  have o: "objs (pNew m1) = ?os" "objs (pNew m2) = ?os" "objs (pNew m3) = ?os"
    "objs (pNew m4) = ?os"
    using o0 f1 f2 f3 f4 by (simp_all add: Gia_ManIncrementTravId_def)
  have vc: "vCopies (pNew m4) = vCopies (pNew m2)" "vCopies (pNew m3) = vCopies (pNew m2)"
    using f3 f4 by (simp_all add: Gia_ManIncrementTravId_def)
  have start: "travIdCur (pNew ?m2) = {}" by (simp add: Gia_ManIncrementTravId_def)
  have V: "travIdCur (pNew m3) \<subseteq> ?C" "min a b \<in> ?C" "max a b \<in> ?C"
    using f3 f4 by auto
  have pushed: "n \<in> set (vNodesNew m4)" if "n \<in> ?C" "0 \<le> vCopies (pNew m2) ! n" for n
  proof (cases "n \<in> travIdCur (pNew m3)")
    case True
    with f3 start that(2) have "n \<in> set (vNodesNew m3)"
      by (simp add: Gia_ManIncrementTravId_def)
    with f4 show ?thesis by blast
  next
    case False
    with that f4 vc show ?thesis by simp
  qed
  have closed: "fanin_closed ?os ?C"
    unfolding fanin_closed_def
  proof
    fix n assume n: "n \<in> ?C"
    show "node_closed ?os ?C n"
    proof (cases "n = 0")
      case True
      with c0 show ?thesis by (simp add: node_closed_def)
    next
      case nz: False
      show ?thesis
      proof (cases "n \<in> travIdCur (pNew m3)")
        case True
        with f3 start nz have "node_closed (objs (pNew ?m2)) (travIdCur (pNew m3)) n"
          by simp
        then have "node_closed ?os (travIdCur (pNew m3)) n"
          using o by (simp add: Gia_ManIncrementTravId_def)
        from this V(1) show ?thesis by (rule node_closed_mono)
      next
        case False
        with n f4 nz have "node_closed (objs (pNew m3)) ?C n" by simp
        with o show ?thesis by simp
      qed
    qed
  qed
  have w0: "sat_ids_within ?C (pNew m) (pNew m0)"
  proof (cases "min a b = 0")
    case True
    with m0 obtain g0 where
      g0: "Cec2_ObjSetSatId (pNew m) 0 (int (nVars (pSat m))) = Inr g0" and "pNew m0 = g0"
      by (auto split: sum.splits)
    with Cec2_ObjSetSatId_within [OF g0, of ?C] V(2) True show ?thesis by simp
  next
    case False
    with m0 show ?thesis by (simp add: sat_ids_within_refl)
  qed
  have w1: "sat_ids_within ?C (pNew m0) (pNew m1)"
    by (rule Cec2_ObjGetCnfVar_within [OF _ v0 V(2)]) (simp add: o0 closed)
  have w2: "sat_ids_within ?C (pNew m1) (pNew m2)"
    by (rule Cec2_ObjGetCnfVar_within [OF _ v1 V(3)]) (simp add: o closed)
  note w = sat_ids_within_trans [OF sat_ids_within_trans [OF w0 w1] w2, unfolded sat_ids_within_def]
  note c = clean_sat_ids_result [OF cln, unfolded vc]
  have len: "length (vCopies (pNew m')) = length (vCopies (pNew m))"
    using c w m' by simp
  have ent: "vCopies (pNew m') ! i = - 1"
    if i: "i < length (vCopies (pNew m))" "vCopies (pNew m) ! i = - 1" for i
  proof (cases "vCopies (pNew m2) ! i = - 1")
    case True
    with c w i m' show ?thesis by simp
  next
    case False
    with w i have "i \<in> ?C" "0 \<le> vCopies (pNew m2) ! i" by auto
    then have "i \<in> set (vNodesNew m4)" by (rule pushed)
    with c w i m' show ?thesis by simp
  qed
  have all: "\<forall>v \<in> set (vCopies (pNew m')). v = - 1" if "\<forall>v \<in> set (vCopies (pNew m)). v = - 1"
    using that ent len by (metis in_set_conv_nth nth_mem)
  from len ent all show ?thesis by blast
qed


theorem Cec2_ManSolveTwo_cleans_sat_ids_witness:
  "kind (objs (pNew mux_man) ! 0) = Const0
   \<and> (case Cec2_ManSolveTwo (mux_ext SATOKO_UNSAT) mux_man 6 7 True of
         Inl e \<Rightarrow> False
       | Inr (status, m') \<Rightarrow>
           nVars (pSat m') = 5 \<and> vNodesNew m' = [6, 1, 2, 3, 7]
           \<and> length (vCopies (pNew m')) = 8
           \<and> list_all (\<lambda>v. v = - 1) (vCopies (pNew m')))"
proof -
  have h: "kind (objs (pNew mux_man) ! 0) = Const0" by (simp add: ex_defs)
  have a: "list_all (\<lambda>v. v = - 1) (vCopies (pNew mux_man))" "length (vCopies (pNew mux_man)) = 8"
    by (simp_all add: ex_defs)
  have ev: "(case Cec2_ManSolveTwo (mux_ext SATOKO_UNSAT) mux_man 6 7 True of
         Inl e \<Rightarrow> False
       | Inr (status, m') \<Rightarrow> nVars (pSat m') = 5 \<and> vNodesNew m' = [6, 1, 2, 3, 7])"
    by (simp add: ex_defs sat_defs cnf_defs solve_defs)
  then obtain status m' where
    run: "Cec2_ManSolveTwo (mux_ext SATOKO_UNSAT) mux_man 6 7 True = Inr (status, m')" and
    r: "nVars (pSat m') = 5" "vNodesNew m' = [6, 1, 2, 3, 7]"
    by (cases "Cec2_ManSolveTwo (mux_ext SATOKO_UNSAT) mux_man 6 7 True") auto
  from Cec2_ManSolveTwo_cleans_sat_ids [OF run h] a
  have "length (vCopies (pNew m')) = 8" "list_all (\<lambda>v. v = - 1) (vCopies (pNew m'))"
    by (simp_all add: list_all_iff)
  with h run r show ?thesis by simp
qed

section \<open>The two queries of a call and an undecided answer\<close>












text \<open>
  Claim C2 (amended). The status of a call of \<^verbatim>\<open>Cec2_ManSolveTwo\<close> is the answer of the
  solver to the last query of the call. When it is UNDEC, \<^verbatim>\<open>Cec2_ManSweepNode\<close> sets the
  failed flag of the node, leaving the objects of the AIG and the proved flag of the
  node as they were (the node is not merged), and then fails its unconditional
  assertion (\<^verbatim>\<open>assert( 0 )\<close>, line 811): the program stops there, the call does not
  return. An undecided query is fatal, not a recoverable event of one node, and this
  assertion fails for no other status.
\<close>

theorem Cec2_ManSweepNode_undec_aborts:
  assumes "iRepr (pReprs (pAig m) ! iObj) \<noteq> GIA_VOID"
      and "sweep_args m iObj = (a, b, fCompl)"
      and "Cec2_ManSolveTwo E m a b fCompl = Inr (status, m1)"
      and "assumptions (pSat m) = []"
      and "iObj < length (pReprs (pAig m))"
  shows "status = fst (solver_answer E (clauses (pSat m1)) (last (queries (pSat m1))))
       \<and> (Cec2_ManSweepNode E m iObj = Inl (AssertFailed 811) \<longleftrightarrow> status = SATOKO_UNDEC)
       \<and> (status = SATOKO_UNDEC \<longrightarrow>
            (\<forall>r m'. Cec2_ManSweepNode E m iObj \<noteq> Inr (r, m'))
          \<and> (\<exists>m2. sweep_branches E m iObj = Inr (SATOKO_UNDEC, 1, m2)
                 \<and> fFailed (pReprs (pAig m2) ! iObj)
                 \<and> fProved (pReprs (pAig m2) ! iObj) = fProved (pReprs (pAig m) ! iObj)
                 \<and> objs (pAig m2) = objs (pAig m)))"
proof -
  note res = Cec2_ManSolveTwo_result [OF assms(3,4)]
  from res(1) obtain iVar0 iVar1 where
    qs: "(let q1 = [Abc_Var2Lit iVar0 True, Abc_Var2Lit iVar1 fCompl];
              q2 = [Abc_Var2Lit iVar0 False, Abc_Var2Lit iVar1 (\<not> fCompl)];
              st1 = fst (solver_answer E (clauses (pSat m1)) q1);
              st2 = fst (solver_answer E (clauses (pSat m1)) q2)
          in if st1 = SATOKO_UNSAT \<and> 0 < min a b
             then queries (pSat m1) = queries (pSat m) @ [q1, q2] \<and> status = st2
             else queries (pSat m1) = queries (pSat m) @ [q1] \<and> status = st1)"
    by blast
  have last: "status = fst (solver_answer E (clauses (pSat m1)) (last (queries (pSat m1))))"
    using qs by (auto simp: Let_def split: if_splits)
  have iff: "Cec2_ManSweepNode E m iObj = Inl (AssertFailed 811) \<longleftrightarrow> status = SATOKO_UNDEC"
    using assms(1,2,3)
    by (cases status) (simp_all add: Cec2_ManSweepNode_unfold Let_def)
  have undec: "(\<forall>r m'. Cec2_ManSweepNode E m iObj \<noteq> Inr (r, m'))
          \<and> (\<exists>m2. sweep_branches E m iObj = Inr (SATOKO_UNDEC, 1, m2)
                 \<and> fFailed (pReprs (pAig m2) ! iObj)
                 \<and> fProved (pReprs (pAig m2) ! iObj) = fProved (pReprs (pAig m) ! iObj)
                 \<and> objs (pAig m2) = objs (pAig m))"
    if u: "status = SATOKO_UNDEC"
  proof -
    from iff u have "Cec2_ManSweepNode E m iObj = Inl (AssertFailed 811)" by simp
    then have no: "\<forall>r m'. Cec2_ManSweepNode E m iObj \<noteq> Inr (r, m')" by simp
    note args' = assms(2) [unfolded sweep_args_def Let_def, simplified]
    have br: "sweep_branches E m iObj
        = Inr (SATOKO_UNDEC, 1, m1 \<lparr> pAig := Gia_ObjSetFailed (pAig m1) iObj \<rparr>)"
      using assms(1,3) args' u by (simp add: sweep_branches_def Let_def)
    from res(2) assms(5) have
      "fFailed (pReprs (pAig (m1 \<lparr> pAig := Gia_ObjSetFailed (pAig m1) iObj \<rparr>)) ! iObj)"
      "fProved (pReprs (pAig (m1 \<lparr> pAig := Gia_ObjSetFailed (pAig m1) iObj \<rparr>)) ! iObj)
         = fProved (pReprs (pAig m) ! iObj)"
      "objs (pAig (m1 \<lparr> pAig := Gia_ObjSetFailed (pAig m1) iObj \<rparr>)) = objs (pAig m)"
      by (simp_all add: Gia_ObjSetFailed_def)
    with br no show ?thesis by blast
  qed
  from last iff undec show ?thesis by blast
qed

theorem Cec2_ManSweepNode_undec_counterexample:
  "(case Cec2_ManSolveTwo (mux_ext SATOKO_UNDEC) mux_man 6 7 True of
         Inl e \<Rightarrow> False
       | Inr (status, m1) \<Rightarrow> status = SATOKO_UNDEC \<and> queries (pSat m1) = [[1, 9]])
   \<and> Cec2_ManSweepNode (mux_ext SATOKO_UNDEC) mux_man 7 = Inl (AssertFailed 811)
   \<and> (case sweep_branches (mux_ext SATOKO_UNDEC) mux_man 7 of
         Inl e \<Rightarrow> False
       | Inr (status, RetValue, m2) \<Rightarrow>
           status = SATOKO_UNDEC \<and> fFailed (pReprs (pAig m2) ! 7))"
  by (simp add: ex_defs sat_defs cnf_defs solve_defs sweep_defs)

theorem Cec2_ManSweepNode_undec_aborts_witness:
  "iRepr (pReprs (pAig mux_man) ! 7) \<noteq> GIA_VOID
   \<and> sweep_args mux_man 7 = (6, 7, True)
   \<and> assumptions (pSat mux_man) = [] \<and> 7 < length (pReprs (pAig mux_man))
   \<and> (case Cec2_ManSolveTwo (mux_ext SATOKO_UNDEC) mux_man 6 7 True of
         Inl e \<Rightarrow> False
       | Inr (status, m1) \<Rightarrow> status = SATOKO_UNDEC)
   \<and> Cec2_ManSweepNode (mux_ext SATOKO_UNDEC) mux_man 7 = Inl (AssertFailed 811)
   \<and> (case sweep_branches (mux_ext SATOKO_UNDEC) mux_man 7 of
         Inl e \<Rightarrow> False
       | Inr (status, RetValue, m2) \<Rightarrow> fFailed (pReprs (pAig m2) ! 7))"
proof -
  let ?E = "mux_ext SATOKO_UNDEC"
  have h1: "iRepr (pReprs (pAig mux_man) ! 7) \<noteq> GIA_VOID"
    by (simp add: ex_defs GIA_VOID_def)
  have h2: "sweep_args mux_man 7 = (6, 7, True)"
    by (simp add: ex_defs sweep_defs)
  have h4: "assumptions (pSat mux_man) = []" by (simp add: ex_defs)
  have h5: "7 < length (pReprs (pAig mux_man))" by (simp add: ex_defs)
  have ev: "(case Cec2_ManSolveTwo ?E mux_man 6 7 True of
         Inl e \<Rightarrow> False
       | Inr (status, m1) \<Rightarrow> status = SATOKO_UNDEC)"
    by (simp add: ex_defs sat_defs cnf_defs solve_defs)
  then obtain m1 where
    h3: "Cec2_ManSolveTwo ?E mux_man 6 7 True = Inr (SATOKO_UNDEC, m1)"
    by (cases "Cec2_ManSolveTwo ?E mux_man 6 7 True") auto
  note inst = Cec2_ManSweepNode_undec_aborts [OF h1 h2 h3 h4 h5]
  from inst have ab: "Cec2_ManSweepNode ?E mux_man 7 = Inl (AssertFailed 811)" by blast
  from inst obtain m2 where
    "sweep_branches ?E mux_man 7 = Inr (SATOKO_UNDEC, 1, m2)" "fFailed (pReprs (pAig m2) ! 7)"
    by blast
  with h1 h2 h4 h5 ev ab show ?thesis by simp
qed

section \<open>Refining one class\<close>

lemma path_snoc: "path nx x (ys @ [z]) \<longleftrightarrow> path nx x ys \<and> nx ! last (x # ys) = int z"
  by (induction ys arbitrary: x) auto

lemma path_update:
  "k \<notin> set (butlast (x # ys)) \<Longrightarrow> path (nx[k := v]) x ys = path nx x ys"
  by (induction ys arbitrary: x) auto

lemma is_chain_update:
  "k \<notin> set xs \<Longrightarrow> is_chain (nx[k := v]) n xs = is_chain nx n xs"
  by (induction xs arbitrary: n) auto

lemma is_chain_path:
  "is_chain nx (nx ! x) ys \<longleftrightarrow>
     path nx x ys \<and> (\<forall>y \<in> set ys. 0 < y \<and> y < length nx) \<and> nx ! last (x # ys) \<le> 0"
  by (induction ys arbitrary: x) auto

lemma Cec2_ObjSimEqual_cong:
  "vSims q = vSims p \<Longrightarrow> nSimWords q = nSimWords p \<Longrightarrow>
   Cec2_ObjSimEqual q = Cec2_ObjSimEqual p"
  by (intro ext) (simp add: Cec2_ObjSimEqual_def Cec2_ObjSim_def)

lemma refine_scan_result:
  assumes "is_chain (pNexts p) n ms"
  shows "\<exists>t. refine_scan p iRep iPrev n
               = Some (last (iPrev # takeWhile (Cec2_ObjSimEqual p iRep) ms), t)
           \<and> (case dropWhile (Cec2_ObjSimEqual p iRep) ms of
                 [] \<Rightarrow> t \<le> 0
               | r2 # rest \<Rightarrow> t = int r2)"
  using assms
proof (induction ms arbitrary: iPrev n)
  case Nil
  then show ?case by (subst refine_scan.simps) simp
next
  case (Cons x ms)
  from Cons.prems have n: "n = int x" "0 < x" and rest: "is_chain (pNexts p) (pNexts p ! x) ms"
    by simp_all
  show ?case
  proof (cases "Cec2_ObjSimEqual p iRep x")
    case True
    from Cons.IH [OF rest, of x] True n show ?thesis
      by (subst refine_scan.simps) (simp add: Gia_ObjNext_def)
  next
    case False
    with n show ?thesis by (subst refine_scan.simps) simp
  qed
qed


lemma last_notin_butlast: "distinct xs \<Longrightarrow> xs \<noteq> [] \<Longrightarrow> last xs \<notin> set (butlast xs)"
  by (induction xs) (auto dest: in_set_butlastD)

lemma refine_relink_result:
  assumes "is_chain (pNexts p) n xs"
      and "path (pNexts p) iRep as" and "path (pNexts p) r2 bs"
      and "distinct (iRep # as @ r2 # bs @ xs)"
      and "\<forall>y \<in> set (iRep # as @ r2 # bs). y < length (pNexts p)"
      and "\<forall>y \<in> set xs. y < length (pReprs p)"
  shows "\<exists>p'. refine_relink p iRep r2 (last (iRep # as)) (last (r2 # bs)) n
               = Some (p', last (iRep # as @ filter (Cec2_ObjSimEqual p iRep) xs),
                           last (r2 # bs @ filter (\<lambda>x. \<not> Cec2_ObjSimEqual p iRep x) xs))
           \<and> path (pNexts p') iRep (as @ filter (Cec2_ObjSimEqual p iRep) xs)
           \<and> path (pNexts p') r2 (bs @ filter (\<lambda>x. \<not> Cec2_ObjSimEqual p iRep x) xs)
           \<and> length (pNexts p') = length (pNexts p)
           \<and> (\<forall>y. y \<notin> set (iRep # as @ r2 # bs @ xs) \<longrightarrow> pNexts p' ! y = pNexts p ! y)
           \<and> length (pReprs p') = length (pReprs p)
           \<and> (\<forall>y. y \<notin> set (filter (\<lambda>x. \<not> Cec2_ObjSimEqual p iRep x) xs)
                  \<longrightarrow> pReprs p' ! y = pReprs p ! y)
           \<and> (\<forall>y \<in> set (filter (\<lambda>x. \<not> Cec2_ObjSimEqual p iRep x) xs).
                  iRepr (pReprs p' ! y) = r2)
           \<and> vSims p' = vSims p \<and> nSimWords p' = nSimWords p"
  using assms
proof (induction xs arbitrary: p n as bs)
  case Nil
  then show ?case by (subst refine_relink.simps) simp
next
  case (Cons x xs)
  let ?nx = "pNexts p"
  have lx: "last (iRep # as @ [x]) = x" "last (r2 # bs @ [x]) = x"
    by simp_all
  note last.simps [simp del]
  from Cons.prems(1) have n: "n = int x" "0 < x" "x < length ?nx"
    and rest: "is_chain ?nx (?nx ! x) xs"
    by simp_all
  from Cons.prems(4) have d: "x \<notin> set (iRep # as)" "x \<notin> set (r2 # bs)" "x \<notin> set xs"
    "last (iRep # as) \<notin> set xs" "last (r2 # bs) \<notin> set xs"
    "last (iRep # as) \<notin> set (r2 # bs)" "last (r2 # bs) \<notin> set (iRep # as)"
    "last (iRep # as) \<notin> set (butlast (iRep # as))"
    "last (r2 # bs) \<notin> set (butlast (r2 # bs))"
    "last (iRep # as) \<noteq> x" "last (r2 # bs) \<noteq> x"
  proof -
    have la: "last (iRep # as) \<in> set (iRep # as)" and lb: "last (r2 # bs) \<in> set (r2 # bs)"
      by (rule last_in_set, simp)+
    have da: "distinct (iRep # as)" and db: "distinct (r2 # bs)"
      using Cons.prems(4) by auto
    show "x \<notin> set (iRep # as)" "x \<notin> set (r2 # bs)" "x \<notin> set xs"
      using Cons.prems(4) by auto
    show "last (iRep # as) \<notin> set xs" "last (iRep # as) \<notin> set (r2 # bs)" "last (iRep # as) \<noteq> x"
      using la Cons.prems(4) by auto
    show "last (r2 # bs) \<notin> set xs" "last (r2 # bs) \<notin> set (iRep # as)" "last (r2 # bs) \<noteq> x"
      using lb Cons.prems(4) by auto
    show "last (iRep # as) \<notin> set (butlast (iRep # as))"
      using da by (rule last_notin_butlast) simp
    show "last (r2 # bs) \<notin> set (butlast (r2 # bs))"
      using db by (rule last_notin_butlast) simp
  qed
  have rng: "last (iRep # as) < length ?nx" "last (r2 # bs) < length ?nx"
    using Cons.prems(5) last_in_set [of "iRep # as"] last_in_set [of "r2 # bs"] by auto
  show ?case
  proof (cases "Cec2_ObjSimEqual p iRep x")
    case True
    let ?p1 = "Gia_ObjSetNext p (last (iRep # as)) (int x)"
    have eq: "Cec2_ObjSimEqual ?p1 = Cec2_ObjSimEqual p"
      by (rule Cec2_ObjSimEqual_cong) (simp_all add: Gia_ObjSetNext_def)
    have nx1: "pNexts ?p1 = ?nx[last (iRep # as) := int x]" "pReprs ?p1 = pReprs p"
      "vSims ?p1 = vSims p" "nSimWords ?p1 = nSimWords p"
      by (simp_all add: Gia_ObjSetNext_def)
    have nxt: "Gia_ObjNext ?p1 x = ?nx ! x"
      using d(10) by (simp add: Gia_ObjNext_def nx1)
    have a1: "is_chain (pNexts ?p1) (?nx ! x) xs"
      using rest d(4) by (simp add: nx1 is_chain_update)
    have a2: "path (pNexts ?p1) iRep (as @ [x])"
      using Cons.prems(2) d(8) rng by (simp add: nx1 path_snoc path_update)
    have "last (iRep # as) \<notin> set (butlast (r2 # bs))"
      using d(6) by (blast dest: in_set_butlastD)
    then have a3: "path (pNexts ?p1) r2 bs"
      using Cons.prems(3) by (simp add: nx1 path_update)
    have a4: "distinct (iRep # (as @ [x]) @ r2 # bs @ xs)"
      using Cons.prems(4) by auto
    have a5: "\<forall>y \<in> set (iRep # (as @ [x]) @ r2 # bs). y < length (pNexts ?p1)"
      using Cons.prems(5) n by (auto simp: nx1)
    have a6: "\<forall>y \<in> set xs. y < length (pReprs ?p1)"
      using Cons.prems(6) by (simp add: nx1)
    from Cons.IH [OF a1 a2 a3 a4 a5 a6] obtain p' where
      r: "refine_relink ?p1 iRep r2 (last (iRep # as @ [x])) (last (r2 # bs)) (?nx ! x)
               = Some (p', last (iRep # (as @ [x]) @ filter (Cec2_ObjSimEqual p iRep) xs),
                           last (r2 # bs @ filter (\<lambda>x. \<not> Cec2_ObjSimEqual p iRep x) xs))"
        "path (pNexts p') iRep ((as @ [x]) @ filter (Cec2_ObjSimEqual p iRep) xs)"
        "path (pNexts p') r2 (bs @ filter (\<lambda>x. \<not> Cec2_ObjSimEqual p iRep x) xs)"
        "length (pNexts p') = length (pNexts ?p1)"
        "\<forall>y. y \<notin> set (iRep # (as @ [x]) @ r2 # bs @ xs) \<longrightarrow> pNexts p' ! y = pNexts ?p1 ! y"
        "length (pReprs p') = length (pReprs ?p1)"
        "\<forall>y. y \<notin> set (filter (\<lambda>x. \<not> Cec2_ObjSimEqual p iRep x) xs)
                  \<longrightarrow> pReprs p' ! y = pReprs ?p1 ! y"
        "\<forall>y \<in> set (filter (\<lambda>x. \<not> Cec2_ObjSimEqual p iRep x) xs). iRepr (pReprs p' ! y) = r2"
        "vSims p' = vSims ?p1" "nSimWords p' = nSimWords ?p1"
      unfolding eq by blast
    have run: "refine_relink p iRep r2 (last (iRep # as)) (last (r2 # bs)) n
               = refine_relink ?p1 iRep r2 x (last (r2 # bs)) (?nx ! x)"
      using True n by (subst refine_relink.simps) (simp add: Let_def nxt)
    have other: "\<forall>y. y \<notin> set (iRep # as @ r2 # bs @ x # xs) \<longrightarrow> pNexts p' ! y = ?nx ! y"
    proof (intro allI impI)
      fix y assume y: "y \<notin> set (iRep # as @ r2 # bs @ x # xs)"
      then have "y \<noteq> last (iRep # as)"
        using last_in_set [of "iRep # as"] by auto
      with y r(5) show "pNexts p' ! y = ?nx ! y" by (auto simp: nx1)
    qed
    from r run other True show ?thesis
      by (rule_tac x = p' in exI) (simp add: nx1 lx)
  next
    case False
    note nE = False
    let ?p0 = "Gia_ObjSetRepr p x r2"
    let ?p1 = "Gia_ObjSetNext ?p0 (last (r2 # bs)) (int x)"
    have eq: "Cec2_ObjSimEqual ?p1 = Cec2_ObjSimEqual p"
      by (rule Cec2_ObjSimEqual_cong) (simp_all add: Gia_ObjSetNext_def Gia_ObjSetRepr_def)
    have nx1: "pNexts ?p1 = ?nx[last (r2 # bs) := int x]"
      "pReprs ?p1 = (pReprs p)[x := (pReprs p ! x) \<lparr> iRepr := r2 \<rparr>]"
      "vSims ?p1 = vSims p" "nSimWords ?p1 = nSimWords p"
      by (simp_all add: Gia_ObjSetNext_def Gia_ObjSetRepr_def)
    have nxt: "Gia_ObjNext ?p1 x = ?nx ! x"
      using d(11) by (simp add: Gia_ObjNext_def nx1)
    have a1: "is_chain (pNexts ?p1) (?nx ! x) xs"
      using rest d(5) by (simp add: nx1 is_chain_update)
    have "last (r2 # bs) \<notin> set (butlast (iRep # as))"
      using d(7) by (blast dest: in_set_butlastD)
    then have a2: "path (pNexts ?p1) iRep as"
      using Cons.prems(2) by (simp add: nx1 path_update)
    have a3: "path (pNexts ?p1) r2 (bs @ [x])"
      using Cons.prems(3) d(9) rng by (simp add: nx1 path_snoc path_update)
    have a4: "distinct (iRep # as @ r2 # (bs @ [x]) @ xs)"
      using Cons.prems(4) by auto
    have a5: "\<forall>y \<in> set (iRep # as @ r2 # (bs @ [x])). y < length (pNexts ?p1)"
      using Cons.prems(5) n by (auto simp: nx1)
    have a6: "\<forall>y \<in> set xs. y < length (pReprs ?p1)"
      using Cons.prems(6) by (simp add: nx1)
    from Cons.IH [OF a1 a2 a3 a4 a5 a6] obtain p' where
      r: "refine_relink ?p1 iRep r2 (last (iRep # as)) (last (r2 # bs @ [x])) (?nx ! x)
               = Some (p', last (iRep # as @ filter (Cec2_ObjSimEqual p iRep) xs),
                           last (r2 # (bs @ [x]) @ filter (\<lambda>x. \<not> Cec2_ObjSimEqual p iRep x) xs))"
        "path (pNexts p') iRep (as @ filter (Cec2_ObjSimEqual p iRep) xs)"
        "path (pNexts p') r2 ((bs @ [x]) @ filter (\<lambda>x. \<not> Cec2_ObjSimEqual p iRep x) xs)"
        "length (pNexts p') = length (pNexts ?p1)"
        "\<forall>y. y \<notin> set (iRep # as @ r2 # (bs @ [x]) @ xs) \<longrightarrow> pNexts p' ! y = pNexts ?p1 ! y"
        "length (pReprs p') = length (pReprs ?p1)"
        "\<forall>y. y \<notin> set (filter (\<lambda>x. \<not> Cec2_ObjSimEqual p iRep x) xs)
                  \<longrightarrow> pReprs p' ! y = pReprs ?p1 ! y"
        "\<forall>y \<in> set (filter (\<lambda>x. \<not> Cec2_ObjSimEqual p iRep x) xs). iRepr (pReprs p' ! y) = r2"
        "vSims p' = vSims ?p1" "nSimWords p' = nSimWords ?p1"
      unfolding eq by blast
    have run: "refine_relink p iRep r2 (last (iRep # as)) (last (r2 # bs)) n
               = refine_relink ?p1 iRep r2 (last (iRep # as)) x (?nx ! x)"
      using False n by (subst refine_relink.simps) (simp add: Let_def nxt)
    have other: "\<forall>y. y \<notin> set (iRep # as @ r2 # bs @ x # xs) \<longrightarrow> pNexts p' ! y = ?nx ! y"
    proof (intro allI impI)
      fix y assume y: "y \<notin> set (iRep # as @ r2 # bs @ x # xs)"
      then have "y \<noteq> last (r2 # bs)"
        using last_in_set [of "r2 # bs"] by auto
      with y r(5) show "pNexts p' ! y = ?nx ! y" by (auto simp: nx1)
    qed
    have xr: "x < length (pReprs p)" using Cons.prems(6) by simp
    have rep1: "\<forall>y. y \<notin> set (filter (\<lambda>x. \<not> Cec2_ObjSimEqual p iRep x) (x # xs))
                  \<longrightarrow> pReprs p' ! y = pReprs p ! y"
      using r(7) False by (auto simp: nx1)
    have rep2: "\<forall>y \<in> set (filter (\<lambda>x. \<not> Cec2_ObjSimEqual p iRep x) (x # xs)).
                  iRepr (pReprs p' ! y) = r2"
    proof
      fix y assume y: "y \<in> set (filter (\<lambda>x. \<not> Cec2_ObjSimEqual p iRep x) (x # xs))"
      show "iRepr (pReprs p' ! y) = r2"
      proof (cases "y = x")
        case True
        with d(3) have "y \<notin> set (filter (\<lambda>x. \<not> Cec2_ObjSimEqual p iRep x) xs)" by simp
        with r(7) True xr show ?thesis by (simp add: nx1)
      next
        case False
        with y r(8) nE show ?thesis by auto
      qed
    qed
    from r(1-4,6,9,10) run other rep1 rep2 False show ?thesis
      by (rule_tac x = p' in exI) (simp add: nx1 lx)
  qed
qed


lemma path_append:
  "path nx x (ys @ zs) \<longleftrightarrow> path nx x ys \<and> path nx (last (x # ys)) zs"
  by (induction ys arbitrary: x) auto

text \<open>
  Claim C4. Let the class of the head \<open>r\<close> be the chain \<open>ms\<close> of next links, with
  strictly increasing indices, all inside the arrays. Then
  \<^verbatim>\<open>Cec2_ManSimClassRefineOne\<close> returns, and afterwards the chain of \<open>r\<close> is exactly
  the members \<open>m\<close> with \<^verbatim>\<open>Cec2_ObjSimEqual(p, r, m)\<close>, in their old order. The other
  members, if there are any, form a second chain in their old order: its first
  element has the representative \<^verbatim>\<open>GIA_VOID\<close> (it is a head), and the others have it
  as their representative; if there are none, the manager is unchanged. No other
  representative and no next link outside the class is touched, so no object joins
  a class; the simulation words are not changed.
\<close>

theorem Cec2_ManSimClassRefineOne_splits:
  assumes r: "r < length (pNexts p)"
      and ch: "is_chain (pNexts p) (Gia_ObjNext p r) ms"
      and inc: "sorted_wrt (<) (r # ms)"
      and rp: "\<forall>x \<in> set ms. x < length (pReprs p)"
  shows "\<exists>p'. Cec2_ManSimClassRefineOne p r = Some p'
           \<and> is_chain (pNexts p') (Gia_ObjNext p' r) (filter (Cec2_ObjSimEqual p r) ms)
           \<and> (case filter (\<lambda>m. \<not> Cec2_ObjSimEqual p r m) ms of
                 [] \<Rightarrow> p' = p
               | h # rest \<Rightarrow>
                   Gia_ObjRepr p' h = GIA_VOID
                   \<and> is_chain (pNexts p') (Gia_ObjNext p' h) rest
                   \<and> (\<forall>m \<in> set rest. Gia_ObjRepr p' m = h))
           \<and> (\<forall>y. y \<notin> set (filter (\<lambda>m. \<not> Cec2_ObjSimEqual p r m) ms)
                  \<longrightarrow> pReprs p' ! y = pReprs p ! y)
           \<and> (\<forall>y. y \<notin> set (r # ms) \<longrightarrow> pNexts p' ! y = pNexts p ! y)
           \<and> vSims p' = vSims p \<and> nSimWords p' = nSimWords p"
proof -
  let ?E = "Cec2_ObjSimEqual p r"
  let ?nx = "pNexts p"
  have dist: "distinct (r # ms)"
    using inc strict_sorted_iff by blast
  from ch have chp: "path ?nx r ms" "\<forall>y \<in> set ms. 0 < y \<and> y < length ?nx"
    "?nx ! last (r # ms) \<le> 0"
    unfolding Gia_ObjNext_def is_chain_path by blast+
  from refine_scan_result [OF ch, of r r] obtain t where
    sc: "refine_scan p r r (Gia_ObjNext p r) = Some (last (r # takeWhile ?E ms), t)"
    and tt: "case dropWhile ?E ms of [] \<Rightarrow> t \<le> 0 | r2 # rest \<Rightarrow> t = int r2"
    by blast
  show ?thesis
  proof (cases "dropWhile ?E ms")
    case Nil
    then have "\<forall>x \<in> set ms. ?E x"
      by (simp add: dropWhile_eq_Nil_conv)
    then have f: "filter ?E ms = ms" "filter (\<lambda>m. \<not> ?E m) ms = []"
      by (simp_all add: filter_id_conv filter_empty_conv)
    from tt have "t \<le> 0" unfolding Nil by simp
    with sc have "Cec2_ManSimClassRefineOne p r = Some p"
      by (simp add: Cec2_ManSimClassRefineOne_def)
    with ch show ?thesis
      unfolding f by simp
  next
    case (Cons r2 rest)
    note last.simps [simp del]
    define tw where "tw = takeWhile ?E ms"
    define A where "A = tw @ filter ?E rest"
    define B where "B = filter (\<lambda>m. \<not> ?E m) rest"
    define iA where "iA = last (r # A)"
    define iB where "iB = last (r2 # B)"
    have ms: "ms = tw @ r2 # rest"
      using takeWhile_dropWhile_id [of ?E ms] Cons tw_def by simp
    have twE: "\<forall>x \<in> set tw. ?E x"
      unfolding tw_def by (blast dest: set_takeWhileD)
    have nE: "\<not> ?E r2"
      using hd_dropWhile [of ?E ms] Cons by simp
    have fA: "filter ?E ms = A"
      using twE nE by (simp add: ms A_def filter_id_conv)
    have fB: "filter (\<lambda>m. \<not> ?E m) ms = r2 # B"
      using twE nE by (simp add: ms B_def filter_empty_conv)
    from tt have t: "t = int r2" unfolding Cons by simp
    from chp(2) have r2: "0 < r2" "r2 < length ?nx" by (simp_all add: ms)
    from rp have r2r: "r2 < length (pReprs p)" by (simp add: ms)
    let ?p1 = "Gia_ObjSetRepr p r2 GIA_VOID"
    have p1: "pNexts ?p1 = ?nx"
      "pReprs ?p1 = (pReprs p)[r2 := (pReprs p ! r2) \<lparr> iRepr := GIA_VOID \<rparr>]"
      "vSims ?p1 = vSims p" "nSimWords ?p1 = nSimWords p"
      by (simp_all add: Gia_ObjSetRepr_def)
    have eq1: "Cec2_ObjSimEqual ?p1 = Cec2_ObjSimEqual p"
      by (rule Cec2_ObjSimEqual_cong) (simp_all add: p1)
    have nxt1: "Gia_ObjNext ?p1 r2 = ?nx ! r2"
      by (simp add: Gia_ObjNext_def p1)
    from chp(1) have pa: "path ?nx r tw" "path ?nx r2 rest"
      by (simp_all add: ms path_append)
    have lst: "last (r # ms) = last (r2 # rest)"
      by (simp add: ms last.simps)
    have c1: "is_chain (pNexts ?p1) (?nx ! r2) rest"
      unfolding p1 is_chain_path using pa(2) chp(2,3) by (simp add: lst) (simp add: ms)
    have c2: "path (pNexts ?p1) r tw" and c3: "path (pNexts ?p1) r2 []"
      using pa(1) by (simp_all add: p1)
    have c4: "distinct (r # tw @ r2 # [] @ rest)"
      using dist by (simp add: ms)
    have c5: "\<forall>y \<in> set (r # tw @ r2 # []). y < length (pNexts ?p1)"
      using r chp(2) by (simp add: p1 ms)
    have c6: "\<forall>y \<in> set rest. y < length (pReprs ?p1)"
      using rp by (simp add: p1 ms)
    from refine_relink_result [OF c1 c2 c3 c4 c5 c6] obtain p2 where
      rl: "refine_relink ?p1 r r2 (last (r # tw)) (last [r2]) (?nx ! r2) = Some (p2, iA, iB)"
        "path (pNexts p2) r A" "path (pNexts p2) r2 B"
        "length (pNexts p2) = length ?nx"
        "\<forall>y. y \<notin> set (r # ms) \<longrightarrow> pNexts p2 ! y = ?nx ! y"
        "length (pReprs p2) = length (pReprs p)"
        "\<forall>y. y \<notin> set B \<longrightarrow> pReprs p2 ! y = pReprs ?p1 ! y"
        "\<forall>y \<in> set B. iRepr (pReprs p2 ! y) = r2"
        "vSims p2 = vSims p" "nSimWords p2 = nSimWords p"
      unfolding eq1 p1 A_def B_def iA_def iB_def by (simp add: ms) blast
    define p' where "p' = Gia_ObjSetNext (Gia_ObjSetNext p2 iA (- 1)) iB (- 1)"
    have l1: "last [r2] = r2" by (simp add: last.simps)
    have res: "Cec2_ManSimClassRefineOne p r = Some p'"
      using sc t r2(1) rl(1)
      by (simp add: Cec2_ManSimClassRefineOne_def Let_def nxt1 l1 tw_def p'_def)
    have p': "pNexts p' = (pNexts p2)[iA := - 1, iB := - 1]" "pReprs p' = pReprs p2"
      "vSims p' = vSims p" "nSimWords p' = nSimWords p"
      by (simp_all add: p'_def Gia_ObjSetNext_def rl)
    have dAB: "distinct (r # A @ r2 # B)"
      using dist by (auto simp: ms A_def B_def)
    have sub: "set (r # A @ r2 # B) = set (r # ms)"
      by (auto simp: ms A_def B_def)
    have iA: "iA \<in> set (r # A)" and iB: "iB \<in> set (r2 # B)"
      unfolding iA_def iB_def by (rule last_in_set, simp)+
    have ne: "iA \<noteq> iB" "iA \<notin> set (r2 # B)" "iB \<notin> set (r # A)"
      using iA iB dAB by auto
    have dA: "distinct (r # A)" and dB: "distinct (r2 # B)"
      using dAB by auto
    have bA: "iA \<notin> set (butlast (r # A))"
      unfolding iA_def using dA by (rule last_notin_butlast) simp
    have bB: "iB \<notin> set (butlast (r2 # B))"
      unfolding iB_def using dB by (rule last_notin_butlast) simp
    have bA': "iB \<notin> set (butlast (r # A))" and bB': "iA \<notin> set (butlast (r2 # B))"
      using ne by (blast dest: in_set_butlastD)+
    have bnd: "\<forall>y \<in> set (r # ms). y < length ?nx" "\<forall>y \<in> set ms. 0 < y"
      using r chp(2) by auto
    have bndA: "\<forall>y \<in> set A. 0 < y \<and> y < length (pNexts p')"
      and bndB: "\<forall>y \<in> set B. 0 < y \<and> y < length (pNexts p')"
      using chp(2) by (auto simp: p' rl(4) ms A_def B_def)
    have mA: "iA \<in> set (r # ms)" and mB: "iB \<in> set (r # ms)"
      using iA iB by (auto simp: ms A_def B_def)
    have inA: "iA < length (pNexts p2)" and inB: "iB < length (pNexts p2)"
      unfolding rl(4) using mA mB bnd(1) by blast+
    have endA: "pNexts p' ! iA = - 1" and endB: "pNexts p' ! iB = - 1"
      using ne(1) inA inB by (simp_all add: p')
    have chA: "is_chain (pNexts p') (Gia_ObjNext p' r) A"
      unfolding Gia_ObjNext_def is_chain_path
      using rl(2) bA bA' bndA endA by (simp add: p' path_update iA_def [symmetric])
    have chB: "is_chain (pNexts p') (Gia_ObjNext p' r2) B"
      unfolding Gia_ObjNext_def is_chain_path
      using rl(3) bB bB' bndB endB by (simp add: p' path_update iB_def [symmetric])
    have "r2 \<notin> set B" using dAB by simp
    with rl(7) r2r have hd: "Gia_ObjRepr p' r2 = GIA_VOID"
      by (simp add: Gia_ObjRepr_def p' p1)
    have mv: "\<forall>m \<in> set B. Gia_ObjRepr p' m = r2"
      using rl(8) by (simp add: Gia_ObjRepr_def p')
    have oth: "\<forall>y. y \<notin> set (r2 # B) \<longrightarrow> pReprs p' ! y = pReprs p ! y"
      using rl(7) by (simp add: p' p1)
    have nxo: "\<forall>y. y \<notin> set (r # ms) \<longrightarrow> pNexts p' ! y = ?nx ! y"
    proof (intro allI impI)
      fix y assume y: "y \<notin> set (r # ms)"
      with mA mB have "y \<noteq> iA" "y \<noteq> iB" by blast+
      with y rl(5) show "pNexts p' ! y = ?nx ! y" by (simp add: p')
    qed
    from res chA chB hd mv oth nxo p'(3,4) show ?thesis
      unfolding fA fB by (rule_tac x = p' in exI) simp
  qed
qed

theorem Cec2_ManSimClassRefineOne_splits_witness:
  "1 < length (pNexts class_example)
   \<and> is_chain (pNexts class_example) (Gia_ObjNext class_example 1) [2, 3, 4, 5, 6]
   \<and> sorted_wrt (<) [1 :: nat, 2, 3, 4, 5, 6]
   \<and> list_all (\<lambda>x. x < length (pReprs class_example)) [2, 3, 4, 5, 6]
   \<and> (case Cec2_ManSimClassRefineOne class_example 1 of
         None \<Rightarrow> False
       | Some p' \<Rightarrow>
           is_chain (pNexts p') (Gia_ObjNext p' 1) [2, 4, 6]
           \<and> Gia_ObjRepr p' 3 = GIA_VOID
           \<and> is_chain (pNexts p') (Gia_ObjNext p' 3) [5]
           \<and> Gia_ObjRepr p' 5 = 3
           \<and> map (Gia_ObjRepr p') [2, 4, 6] = [1, 1, 1])"
proof -
  have h1: "1 < length (pNexts class_example)"
    by (simp add: class_example_def gia_empty_def)
  have h2: "is_chain (pNexts class_example) (Gia_ObjNext class_example 1) [2, 3, 4, 5, 6]"
    by (simp add: class_example_def gia_empty_def Gia_ObjNext_def)
  have h3: "sorted_wrt (<) [1 :: nat, 2, 3, 4, 5, 6]"
    by simp
  have h4: "\<forall>x \<in> set [2, 3, 4, 5, 6]. x < length (pReprs class_example)"
    by (simp add: class_example_def gia_empty_def)
  have e: "map (Cec2_ObjSimEqual class_example 1) [2, 3, 4, 5, 6] = [True, False, True, False, True]"
    by (simp add: class_example_def gia_empty_def Cec2_ObjSimEqual_def Cec2_ObjSim_def
        words_same_from.simps words_compl_from.simps)
  then have f: "filter (Cec2_ObjSimEqual class_example 1) [2, 3, 4, 5, 6] = [2, 4, 6]"
    "filter (\<lambda>m. \<not> Cec2_ObjSimEqual class_example 1 m) [2, 3, 4, 5, 6] = [3, 5]"
    by simp_all
  have old: "map (Gia_ObjRepr class_example) [2, 4, 6] = [1, 1, 1]"
    by (simp add: class_example_def gia_empty_def Gia_ObjRepr_def)
  from Cec2_ManSimClassRefineOne_splits [OF h1 h2 h3 h4] obtain p' where
    r: "Cec2_ManSimClassRefineOne class_example 1 = Some p'"
      "is_chain (pNexts p') (Gia_ObjNext p' 1) [2, 4, 6]"
      "Gia_ObjRepr p' 3 = GIA_VOID" "is_chain (pNexts p') (Gia_ObjNext p' 3) [5]"
      "Gia_ObjRepr p' 5 = 3"
      "\<forall>y. y \<notin> set [3, 5] \<longrightarrow> pReprs p' ! y = pReprs class_example ! y"
    unfolding f by auto
  from r(6) old have "map (Gia_ObjRepr p') [2, 4, 6] = [1, 1, 1]"
    by (simp add: Gia_ObjRepr_def)
  with h1 h2 h3 h4 r show ?thesis by simp
qed

end
